theory Spec2Isabelle
  imports Complex_Main "HOL-Library.Sublist"
begin

section \<open>JavaScript values used by the reporter\<close>

text \<open>
  The reporter options, the plan and build identifiers and the fields of the client's
  responses are dynamically typed. Only the primitive values are needed. A number among
  them is an identifier or a flag: the reporter only tests it for truthiness and passes it
  on, so it is carried by its value. The numbers the reporter computes with, the durations,
  are modelled apart, as doubles.
\<close>

datatype jsval = JUndefined | JNull | JBool bool | JNum rat | JStr string

fun truthy :: "jsval \<Rightarrow> bool" where
  "truthy JUndefined = False"
| "truthy JNull = False"
| "truthy (JBool b) = b"
| "truthy (JNum n) = (n \<noteq> 0)"
| "truthy (JStr s) = (s \<noteq> [])"

text \<open>An object literal read by key: a missing key reads as \<open>undefined\<close>.\<close>

type_synonym reporter_options = "string \<rightharpoonup> jsval"

definition opt :: "reporter_options \<Rightarrow> string \<Rightarrow> jsval" where
  "opt options k = (case options k of None \<Rightarrow> JUndefined | Some v \<Rightarrow> v)"

section \<open>Validation of the reporter options\<close>

datatype config_error =
    MissingReporterOptions
  | EitherPlanOrPrefix
  | MissingOption string
  | InvalidURL

fun missing_opts :: "reporter_options \<Rightarrow> string list \<Rightarrow> config_error + unit" where
  "missing_opts options [] = Inr ()"
| "missing_opts options (k # ks) =
     (if \<not> truthy (opt options k) then Inl (MissingOption k) else missing_opts options ks)"

definition validateReporterOptions :: "reporter_options option \<Rightarrow> config_error + unit" where
  "validateReporterOptions options =
     (case options of
        None \<Rightarrow> Inl MissingReporterOptions
      | Some ro \<Rightarrow>
          if \<not> (truthy (opt ro ''testplanid'') \<and> truthy (opt ro ''buildid''))
               \<and> \<not> truthy (opt ro ''prefix'')
          then Inl EitherPlanOrPrefix
          else missing_opts ro [''URL'', ''apiKey''])"

section \<open>Extraction of case identifiers from a title\<close>

text \<open>
  \<open>titleToCaseIds\<close> iterates \<open>title.matchAll(/\[(\w+-\d+)\]/g)\<close> and collects the first
  capture group of every match. A title is a list of characters; \<open>\w\<close> is the class
  \<open>[A-Za-z0-9_]\<close> and \<open>\d\<close> the class \<open>[0-9]\<close> (the expression has no unicode flag).

  The backtracking matcher is modelled by lists of alternatives in the order the matcher
  tries them: a greedy \<open>+\<close> offers the longest run first and gives characters back one
  at a time. \<open>re_matches_at\<close> lists, for a match that starts at the head of the string,
  every pair of capture group and remaining input; \<open>re_exec_at\<close> takes the first.
  \<open>matchAll\<close> scans from left to right: after a match the search resumes behind it
  (the match is never empty), otherwise one character further.
\<close>

definition is_digit :: "char \<Rightarrow> bool" where
  "is_digit c = (c \<in> set ''0123456789'')"

definition is_word :: "char \<Rightarrow> bool" where
  "is_word c = (c \<in> set ''abcdefghijklmnopqrstuvwxyzABCDEFGHIJKLMNOPQRSTUVWXYZ0123456789_'')"

fun lit :: "char \<Rightarrow> string \<Rightarrow> string list" where
  "lit x [] = []"
| "lit x (c # cs) = (if c = x then [cs] else [])"

fun class_plus :: "(char \<Rightarrow> bool) \<Rightarrow> string \<Rightarrow> (string \<times> string) list" where
  "class_plus cls [] = []"
| "class_plus cls (c # cs) =
     (if cls c then map (\<lambda>(m, r). (c # m, r)) (class_plus cls cs) @ [([c], cs)] else [])"

definition re_matches_at :: "string \<Rightarrow> (string \<times> string) list" where
  "re_matches_at s =
     [(w @ ''-'' @ d, r5).
        r1 \<leftarrow> lit CHR ''['' s,
        (w, r2) \<leftarrow> class_plus is_word r1,
        r3 \<leftarrow> lit CHR ''-'' r2,
        (d, r4) \<leftarrow> class_plus is_digit r3,
        r5 \<leftarrow> lit CHR '']'' r4]"

definition re_exec_at :: "string \<Rightarrow> (string \<times> string) option" where
  "re_exec_at s = (case re_matches_at s of [] \<Rightarrow> None | m # _ \<Rightarrow> Some m)"

lemma lit_iff: "r \<in> set (lit x s) \<longleftrightarrow> s = x # r"
  by (cases s) auto

lemma class_plus_iff:
  "(m, r) \<in> set (class_plus cls s) \<longleftrightarrow> m \<noteq> [] \<and> list_all cls m \<and> s = m @ r"
proof (induction s arbitrary: m)
  case Nil
  then show ?case by simp
next
  case (Cons c cs)
  show ?case
  proof (cases "cls c")
    case False
    then show ?thesis by (cases m) auto
  next
    case True
    show ?thesis
    proof (cases m)
      case Nil
      then show ?thesis using True by auto
    next
      case (Cons a m')
      then show ?thesis using True Cons.IH [of m'] by (cases m') auto
    qed
  qed
qed

lemma re_matches_at_unfold:
  "(g, r) \<in> set (re_matches_at s) \<longleftrightarrow>
     (\<exists>r1 w r2 r3 d r4. r1 \<in> set (lit CHR ''['' s) \<and> (w, r2) \<in> set (class_plus is_word r1)
        \<and> r3 \<in> set (lit CHR ''-'' r2) \<and> (d, r4) \<in> set (class_plus is_digit r3)
        \<and> r \<in> set (lit CHR '']'' r4) \<and> g = w @ CHR ''-'' # d)"
  unfolding re_matches_at_def by fastforce

lemma re_matches_at_iff:
  "(g, r) \<in> set (re_matches_at s) \<longleftrightarrow>
     (\<exists>w d. s = CHR ''['' # w @ CHR ''-'' # d @ CHR '']'' # r \<and> g = w @ CHR ''-'' # d
        \<and> w \<noteq> [] \<and> list_all is_word w \<and> d \<noteq> [] \<and> list_all is_digit d)"
  unfolding re_matches_at_unfold lit_iff class_plus_iff
proof (intro iffI; elim exE conjE)
  fix w d
  assume "s = CHR ''['' # w @ CHR ''-'' # d @ CHR '']'' # r" "g = w @ CHR ''-'' # d"
    "w \<noteq> []" "list_all is_word w" "d \<noteq> []" "list_all is_digit d"
  then show "\<exists>r1 w r2 r3 d r4. s = CHR ''['' # r1 \<and> (w \<noteq> [] \<and> list_all is_word w \<and> r1 = w @ r2) \<and>
       r2 = CHR ''-'' # r3 \<and> (d \<noteq> [] \<and> list_all is_digit d \<and> r3 = d @ r4) \<and>
       r4 = CHR '']'' # r \<and> g = w @ CHR ''-'' # d"
    by (intro exI [of _ "w @ CHR ''-'' # d @ CHR '']'' # r"] exI [of _ w]
        exI [of _ "CHR ''-'' # d @ CHR '']'' # r"] exI [of _ "d @ CHR '']'' # r"] exI [of _ d]
        exI [of _ "CHR '']'' # r"]) simp
qed auto

lemma re_exec_at_Some: "re_exec_at s = Some m \<Longrightarrow> m \<in> set (re_matches_at s)"
  by (auto simp: re_exec_at_def split: list.splits)

lemma re_exec_at_None: "re_exec_at s = None \<Longrightarrow> re_matches_at s = []"
  by (auto simp: re_exec_at_def split: list.splits)

lemma re_exec_at_shorter: "re_exec_at s = Some (g, r) \<Longrightarrow> length r < length s"
  by (auto dest!: re_exec_at_Some simp: re_matches_at_iff)

function matchAll :: "string \<Rightarrow> string list" where
  "matchAll [] = []"
| "matchAll (c # cs) =
     (case re_exec_at (c # cs) of
        Some (g, rest) \<Rightarrow> g # matchAll rest
      | None \<Rightarrow> matchAll cs)"
  by pat_completeness auto
termination
  by (relation "measure length") (auto dest: re_exec_at_shorter)

definition titleToCaseIds :: "string \<Rightarrow> string list" where
  "titleToCaseIds title = matchAll title"

subsection \<open>The extraction as the specification words it\<close>

text \<open>
  For comparison with \<open>titleToCaseIds\<close>: a case token is one or more word characters, a
  hyphen and one or more digits (\<open>is_case_token\<close> tries every position of the hyphen);
  \<open>bracket_inner\<close> gives the inner token of a string that is such a token in square
  brackets; \<open>spec_case_ids\<close> walks the start positions of the title from left to right
  and, at each, collects the inner token of every substring that starts there.
\<close>

definition splits :: "string \<Rightarrow> (string \<times> string) list" where
  "splits t = map (\<lambda>k. (take k t, drop k t)) [0..<Suc (length t)]"

definition is_case_token :: "string \<Rightarrow> bool" where
  "is_case_token t =
     list_ex (\<lambda>(w, r). w \<noteq> [] \<and> list_all is_word w \<and>
                (case r of [] \<Rightarrow> False
                 | c # d \<Rightarrow> c = CHR ''-'' \<and> d \<noteq> [] \<and> list_all is_digit d)) (splits t)"

definition bracket_inner :: "string \<Rightarrow> string list" where
  "bracket_inner p =
     (case p of
        [] \<Rightarrow> []
      | c # q \<Rightarrow> if c = CHR ''['' \<and> q \<noteq> [] \<and> last q = CHR '']'' \<and> is_case_token (butlast q)
                 then [butlast q] else [])"

fun spec_case_ids :: "string \<Rightarrow> string list" where
  "spec_case_ids [] = []"
| "spec_case_ids (c # cs) = concat (map bracket_inner (prefixes (c # cs))) @ spec_case_ids cs"

lemma in_set_splits: "(w, r) \<in> set (splits t) \<longleftrightarrow> t = w @ r"
proof
  assume "(w, r) \<in> set (splits t)"
  then show "t = w @ r" by (auto simp: splits_def)
next
  assume t: "t = w @ r"
  have "length w \<in> set [0..<Suc (length t)]" using t by simp
  then have "(take (length w) t, drop (length w) t) \<in> set (splits t)"
    unfolding splits_def set_map by (rule imageI)
  then show "(w, r) \<in> set (splits t)" using t by simp
qed

lemma is_case_token_iff:
  "is_case_token t \<longleftrightarrow>
     (\<exists>w d. t = w @ CHR ''-'' # d \<and> w \<noteq> [] \<and> list_all is_word w \<and> d \<noteq> [] \<and> list_all is_digit d)"
proof
  assume "is_case_token t"
  then obtain w r where wr: "(w, r) \<in> set (splits t)" "w \<noteq> []" "list_all is_word w"
      "case r of [] \<Rightarrow> False | c # d \<Rightarrow> c = CHR ''-'' \<and> d \<noteq> [] \<and> list_all is_digit d"
    unfolding is_case_token_def list_ex_iff by blast
  from wr(4) obtain d where "r = CHR ''-'' # d" "d \<noteq> []" "list_all is_digit d"
    by (cases r) auto
  then show "\<exists>w d. t = w @ CHR ''-'' # d \<and> w \<noteq> [] \<and> list_all is_word w \<and> d \<noteq> [] \<and> list_all is_digit d"
    using wr by (auto simp: in_set_splits)
next
  assume "\<exists>w d. t = w @ CHR ''-'' # d \<and> w \<noteq> [] \<and> list_all is_word w \<and> d \<noteq> [] \<and> list_all is_digit d"
  then obtain w d where "t = w @ CHR ''-'' # d" "w \<noteq> []" "list_all is_word w" "d \<noteq> []" "list_all is_digit d"
    by blast
  then have "(w, CHR ''-'' # d) \<in> set (splits t)" "w \<noteq> []" "list_all is_word w"
      "case CHR ''-'' # d of [] \<Rightarrow> False | c # d \<Rightarrow> c = CHR ''-'' \<and> d \<noteq> [] \<and> list_all is_digit d"
    by (simp_all add: in_set_splits)
  then show "is_case_token t"
    unfolding is_case_token_def list_ex_iff by (intro bexI [of _ "(w, CHR ''-'' # d)"]) auto
qed

lemma not_word_bracket: "\<not> is_word CHR ''[''" "\<not> is_word CHR '']''" "\<not> is_word CHR ''-''"
  by (simp_all add: is_word_def)

lemma not_digit_bracket: "\<not> is_digit CHR ''[''" "\<not> is_digit CHR '']''" "\<not> is_digit CHR ''-''"
  by (simp_all add: is_digit_def)

lemma token_no_bracket:
  assumes "is_case_token g"
  shows "CHR ''['' \<notin> set g" and "CHR '']'' \<notin> set g"
  using assms not_word_bracket not_digit_bracket
  by (auto simp: is_case_token_iff list_all_iff)

lemma bracket_inner_cases:
  "bracket_inner p = [] \<or> (\<exists>g. p = CHR ''['' # g @ '']'' \<and> is_case_token g \<and> bracket_inner p = [g])"
proof (cases p)
  case Nil
  then show ?thesis by (simp add: bracket_inner_def)
next
  case (Cons c q)
  show ?thesis
  proof (cases "c = CHR ''['' \<and> q \<noteq> [] \<and> last q = CHR '']'' \<and> is_case_token (butlast q)")
    case False
    then show ?thesis using Cons by (auto simp: bracket_inner_def)
  next
    case True
    then have "q = butlast q @ '']''" by (metis append_butlast_last_id)
    then show ?thesis using Cons True by (auto simp: bracket_inner_def)
  qed
qed

lemma bracket_inner_token: "is_case_token g \<Longrightarrow> bracket_inner (CHR ''['' # g @ '']'') = [g]"
  by (simp add: bracket_inner_def)

lemma concat_map_nil: "(\<And>q. q \<in> set xs \<Longrightarrow> f q = []) \<Longrightarrow> concat (map f xs) = []"
  by (induction xs) auto

lemma concat_map_single:
  "distinct xs \<Longrightarrow> p \<in> set xs \<Longrightarrow> (\<And>q. q \<in> set xs \<Longrightarrow> q \<noteq> p \<Longrightarrow> f q = [])
     \<Longrightarrow> concat (map f xs) = f p"
proof (induction xs)
  case Nil
  then show ?case by simp
next
  case (Cons x xs)
  show ?case
  proof (cases "x = p")
    case True
    then have "concat (map f xs) = []" using Cons.prems by (intro concat_map_nil) auto
    then show ?thesis using True by simp
  next
    case False
    then have "f x = []" using Cons.prems by auto
    moreover have "concat (map f xs) = f p" using Cons False by auto
    ultimately show ?thesis by simp
  qed
qed

lemma matches_at_token:
  "(g, r) \<in> set (re_matches_at s) \<longleftrightarrow> s = CHR ''['' # g @ CHR '']'' # r \<and> is_case_token g"
proof
  assume "(g, r) \<in> set (re_matches_at s)"
  then obtain w d where "s = CHR ''['' # w @ CHR ''-'' # d @ CHR '']'' # r" "g = w @ CHR ''-'' # d"
    "w \<noteq> []" "list_all is_word w" "d \<noteq> []" "list_all is_digit d"
    unfolding re_matches_at_iff by blast
  then show "s = CHR ''['' # g @ CHR '']'' # r \<and> is_case_token g"
    unfolding is_case_token_iff by auto
next
  assume "s = CHR ''['' # g @ CHR '']'' # r \<and> is_case_token g"
  then obtain w d where "s = CHR ''['' # g @ CHR '']'' # r" "g = w @ CHR ''-'' # d"
    "w \<noteq> []" "list_all is_word w" "d \<noteq> []" "list_all is_digit d"
    unfolding is_case_token_iff by blast
  then show "(g, r) \<in> set (re_matches_at s)"
    unfolding re_matches_at_iff by (intro exI [of _ w] exI [of _ d]) simp
qed

lemma append_sep_unique: "x \<notin> set u \<Longrightarrow> x \<notin> set v \<Longrightarrow> u @ x # a = v @ x # b \<Longrightarrow> u = v"
proof (induction u arbitrary: v)
  case Nil
  then show ?case by (cases v) auto
next
  case (Cons y u)
  then show ?case by (cases v) auto
qed

lemma tokens_at_exec:
  "concat (map bracket_inner (prefixes s)) = (case re_exec_at s of Some (g, r) \<Rightarrow> [g] | None \<Rightarrow> [])"
proof (cases "re_exec_at s")
  case None
  have "bracket_inner q = []" if "q \<in> set (prefixes s)" for q
  proof (rule ccontr)
    assume "bracket_inner q \<noteq> []"
    then obtain g where g: "q = CHR ''['' # g @ '']''" "is_case_token g"
      using bracket_inner_cases [of q] by auto
    from that obtain r where "s = q @ r" by (auto simp: prefix_def)
    then have "(g, r) \<in> set (re_matches_at s)" using g by (simp add: matches_at_token)
    then show False using re_exec_at_None [OF None] by simp
  qed
  then have "concat (map bracket_inner (prefixes s)) = []" by (rule concat_map_nil)
  then show ?thesis using None by simp
next
  case (Some m)
  obtain g r where m: "m = (g, r)" by (cases m)
  have s: "s = CHR ''['' # g @ CHR '']'' # r" and tok: "is_case_token g"
    using re_exec_at_Some [OF Some] by (simp_all add: m matches_at_token)
  let ?p = "CHR ''['' # g @ '']''"
  have "?p \<in> set (prefixes s)" by (simp add: s)
  moreover have "bracket_inner q = []" if "q \<in> set (prefixes s)" "q \<noteq> ?p" for q
  proof (rule ccontr)
    assume "bracket_inner q \<noteq> []"
    then obtain g' where g': "q = CHR ''['' # g' @ '']''" "is_case_token g'"
      using bracket_inner_cases [of q] by auto
    from that obtain r' where "s = q @ r'" by (auto simp: prefix_def)
    then have "g' @ CHR '']'' # r' = g @ CHR '']'' # r" using s g' by simp
    then have "g' = g"
      using token_no_bracket(2) [OF tok] token_no_bracket(2) [OF g'(2)]
      by (blast dest: append_sep_unique)
    then show False using that g' by simp
  qed
  ultimately have "concat (map bracket_inner (prefixes s)) = bracket_inner ?p"
    by (intro concat_map_single) auto
  then show ?thesis using Some m tok by (simp add: bracket_inner_token)
qed

lemma spec_skip_non_bracket:
  assumes "c \<noteq> CHR ''[''"
  shows "spec_case_ids (c # cs) = spec_case_ids cs"
proof -
  have "bracket_inner q = []" if "q \<in> set (prefixes (c # cs))" for q
    using that assms by (cases q) (auto simp: bracket_inner_def)
  then have "concat (map bracket_inner (prefixes (c # cs))) = []" by (rule concat_map_nil)
  then show ?thesis by (simp only: spec_case_ids.simps append_Nil)
qed

lemma spec_skip_prefix: "CHR ''['' \<notin> set u \<Longrightarrow> spec_case_ids (u @ v) = spec_case_ids v"
proof (induction u)
  case Nil
  then show ?case by simp
next
  case (Cons x u)
  then have "spec_case_ids (x # (u @ v)) = spec_case_ids (u @ v)"
    by (intro spec_skip_non_bracket) auto
  then show ?case using Cons by simp
qed

lemma matchAll_spec_case_ids: "titleToCaseIds title = spec_case_ids title"
  unfolding titleToCaseIds_def
proof (induction title rule: matchAll.induct)
  case 1
  then show ?case by simp
next
  case (2 c cs)
  have spec: "spec_case_ids (c # cs) =
      (case re_exec_at (c # cs) of Some (g, r) \<Rightarrow> [g] | None \<Rightarrow> []) @ spec_case_ids cs"
    by (simp only: spec_case_ids.simps tokens_at_exec)
  show ?case
  proof (cases "re_exec_at (c # cs)")
    case None
    then have "matchAll (c # cs) = matchAll cs" by simp
    moreover have "matchAll cs = spec_case_ids cs" using 2(1) None by blast
    moreover have "spec_case_ids (c # cs) = spec_case_ids cs" unfolding spec None by simp
    ultimately show ?thesis by simp
  next
    case (Some m)
    obtain g r where m: "m = (g, r)" by (cases m)
    have s: "c # cs = CHR ''['' # g @ CHR '']'' # r" and tok: "is_case_token g"
      using re_exec_at_Some [OF Some] by (simp_all add: m matches_at_token)
    have "CHR ''['' \<notin> set (g @ '']'')" using token_no_bracket(1) [OF tok] by simp
    then have "spec_case_ids ((g @ '']'') @ r) = spec_case_ids r" by (rule spec_skip_prefix)
    then have a: "spec_case_ids cs = spec_case_ids r" using s by simp
    have b: "matchAll r = spec_case_ids r" using 2(2) Some m by blast
    have c: "matchAll (c # cs) = g # matchAll r" using Some m by simp
    have d: "spec_case_ids (c # cs) = g # spec_case_ids cs" unfolding spec Some m by simp
    show ?thesis unfolding c d a b ..
  qed
qed

section \<open>JavaScript numbers\<close>

text \<open>
  A JavaScript number is an IEEE 754 double: a finite value, negative zero, an infinity or
  \<open>NaN\<close>. A finite double is represented by its exact value, \<open>Finite 0\<close> being positive zero.
  The result of an arithmetic operation is the exact result rounded to the nearest double,
  ties to the even significand; a result too large in magnitude is an infinity and one too
  small is a zero of the sign of the exact result.
\<close>

datatype jsnum = Finite rat | NegZero | PosInfinity | NegInfinity | NaN

definition pow2 :: "int \<Rightarrow> rat" where
  "pow2 k = (if 0 \<le> k then 2 ^ nat k else 1 / 2 ^ nat (- k))"

text \<open>The position of the leading bit of a positive integer.\<close>

function ilog2 :: "int \<Rightarrow> int" where
  "ilog2 n = (if n < 2 then 0 else ilog2 (n div 2) + 1)"
  by auto

termination ilog2
  by (relation "measure nat") auto

declare ilog2.simps [simp del]

text \<open>The binary exponent of a positive rational \<open>x\<close>: \<open>2 ^ e \<le> x < 2 ^ (e + 1)\<close>.\<close>

definition exponent :: "rat \<Rightarrow> int" where
  "exponent x =
     (let (a, b) = quotient_of x;
          k = ilog2 a - ilog2 b
      in if pow2 k \<le> x then k else k - 1)"

definition round_half_even :: "rat \<Rightarrow> int" where
  "round_half_even q =
     (let f = \<lfloor>q\<rfloor>; r = q - of_int f
      in if r < 1 / 2 then f else if 1 / 2 < r then f + 1 else if even f then f else f + 1)"

text \<open>
  The spacing of the doubles around \<open>x\<close>: a significand has 53 bits, and below \<open>2 ^ - 1022\<close>
  (the subnormal range) the spacing stays \<open>2 ^ - 1074\<close>.
\<close>

definition ulp :: "rat \<Rightarrow> rat" where
  "ulp x = pow2 (max (exponent x) (- 1022) - 52)"

definition round_magnitude :: "rat \<Rightarrow> rat" where
  "round_magnitude x = of_int (round_half_even (x / ulp x)) * ulp x"

definition to_double :: "rat \<Rightarrow> jsnum" where
  "to_double x =
     (let m = round_magnitude \<bar>x\<bar>
      in if pow2 1024 \<le> m then (if 0 < x then PosInfinity else NegInfinity)
         else if m = 0 then (if 0 \<le> x then Finite 0 else NegZero)
         else Finite (if 0 < x then m else - m))"

fun is_inf :: "jsnum \<Rightarrow> bool" where
  "is_inf PosInfinity = True"
| "is_inf NegInfinity = True"
| "is_inf _ = False"

fun is_zero :: "jsnum \<Rightarrow> bool" where
  "is_zero (Finite r) = (r = 0)"
| "is_zero NegZero = True"
| "is_zero _ = False"

fun negative :: "jsnum \<Rightarrow> bool" where
  "negative (Finite r) = (r < 0)"
| "negative NegZero = True"
| "negative NegInfinity = True"
| "negative _ = False"

fun magnitude :: "jsnum \<Rightarrow> rat" where
  "magnitude (Finite r) = r"
| "magnitude _ = 0"

definition signed_zero :: "bool \<Rightarrow> jsnum" where
  "signed_zero neg = (if neg then NegZero else Finite 0)"

definition signed_inf :: "bool \<Rightarrow> jsnum" where
  "signed_inf neg = (if neg then NegInfinity else PosInfinity)"

text \<open>The operators \<open>+\<close> and \<open>/\<close> on numbers.\<close>

definition js_add :: "jsnum \<Rightarrow> jsnum \<Rightarrow> jsnum" where
  "js_add x y =
     (if x = NaN \<or> y = NaN then NaN
      else if is_inf x then (if is_inf y \<and> x \<noteq> y then NaN else x)
      else if is_inf y then y
      else if x = NegZero then y
      else if y = NegZero then x
      else to_double (magnitude x + magnitude y))"

definition js_div :: "jsnum \<Rightarrow> jsnum \<Rightarrow> jsnum" where
  "js_div x y =
     (if x = NaN \<or> y = NaN then NaN
      else if is_inf x then (if is_inf y then NaN else signed_inf (negative x \<noteq> negative y))
      else if is_inf y then signed_zero (negative x \<noteq> negative y)
      else if is_zero y then (if is_zero x then NaN else signed_inf (negative x \<noteq> negative y))
      else if is_zero x then signed_zero (negative x \<noteq> negative y)
      else to_double (magnitude x / magnitude y))"

text \<open>
  A property that holds a number may also be \<open>undefined\<close> (\<open>None\<close>); an arithmetic operator
  converts its operand to a number first, and \<open>undefined\<close> converts to \<open>NaN\<close>.
\<close>

fun to_number :: "jsnum option \<Rightarrow> jsnum" where
  "to_number None = NaN"
| "to_number (Some n) = n"

section \<open>Result records\<close>

text \<open>
  \<open>ExecutionStatus\<close> and \<open>STATE_PASSED\<close> are constants of the two libraries the reporter
  is built on; the reporter only compares a test's state with \<open>STATE_PASSED\<close> and only
  produces \<open>PASSED\<close> or \<open>FAILED\<close>.
\<close>

datatype ExecutionStatus = PASSED | FAILED

datatype runnable_state = STATE_PASSED | STATE_FAILED | STATE_PENDING | STATE_UNSET

text \<open>
  What the handlers read of the engine's objects: of an error its \<open>stack\<close>, of a test its
  title, state, duration in milliseconds and error (if any), of a suite its title and tests.
  The engine sets the duration of a test when the test has run: a test that has not run (a
  pending one) has none, and its \<open>duration\<close> reads as \<open>undefined\<close>.
\<close>

record js_error =
  stack :: string

record mocha_test =
  test_title :: string
  state :: runnable_state
  duration :: "jsnum option"
  err :: "js_error option"

record mocha_suite =
  suite_title :: string
  tests :: "mocha_test list"

record step_result =
  step_number :: nat
  result :: ExecutionStatus
  step_notes :: string

text \<open>The suite variant of the record has no \<open>notes\<close> key: \<open>None\<close> below.\<close>

record tc_result =
  testcaseexternalid :: string
  testplanid :: jsval
  status :: ExecutionStatus
  buildid :: jsval
  execduration :: jsnum
  tc_notes :: "string option"
  steps :: "step_result list"

text \<open>\<open>suite.tests.map((t, idx) => ...)\<close>: the callback sees the element and its index.\<close>

fun map_idx :: "('a \<Rightarrow> nat \<Rightarrow> 'b) \<Rightarrow> nat \<Rightarrow> 'a list \<Rightarrow> 'b list" where
  "map_idx f idx [] = []"
| "map_idx f idx (t # ts) = f t idx # map_idx f (Suc idx) ts"

definition suite_step :: "mocha_test \<Rightarrow> nat \<Rightarrow> step_result" where
  "suite_step t idx =
     \<lparr> step_number = idx + 1,
       result = (if state t \<noteq> STATE_PASSED then FAILED else PASSED),
       step_notes = (case err t of Some e \<Rightarrow> stack e | None \<Rightarrow> []) \<rparr>"

definition suiteOptions :: "jsval \<Rightarrow> jsval \<Rightarrow> string \<Rightarrow> mocha_suite \<Rightarrow> tc_result" where
  "suiteOptions this_testplanid this_buildid caseId suite =
     \<lparr> testcaseexternalid = caseId,
       testplanid = this_testplanid,
       status = (if list_ex (\<lambda>t. state t \<noteq> STATE_PASSED) (tests suite) then FAILED else PASSED),
       buildid = this_buildid,
       execduration =
         js_div (foldl (\<lambda>acc t. js_add acc (to_number (duration t))) (Finite 0) (tests suite))
           (Finite 60000),
       tc_notes = None,
       steps = map_idx suite_step 0 (tests suite) \<rparr>"

definition tcOptions ::
  "jsval \<Rightarrow> jsval \<Rightarrow> string \<Rightarrow> jsnum option \<Rightarrow> js_error option \<Rightarrow> tc_result" where
  "tcOptions this_testplanid this_buildid caseId dur e =
     \<lparr> testcaseexternalid = caseId,
       testplanid = this_testplanid,
       status = (case e of Some _ \<Rightarrow> FAILED | None \<Rightarrow> PASSED),
       buildid = this_buildid,
       execduration = js_div (to_number dur) (Finite 60000),
       tc_notes = Some (case e of Some x \<Rightarrow> stack x | None \<Rightarrow> []),
       steps = [] \<rparr>"

section \<open>The reporting client and the promise chain\<close>

text \<open>
  The client (\<open>testlink-xmlrpc\<close>) is a collaborator: every verb returns a promise that the
  environment settles later. A reply is either a rejection or an array of objects, of which
  the reporter reads \<open>[0].id\<close> and \<open>prefix\<close>; reading \<open>[0].id\<close> of an empty array throws a
  \<open>TypeError\<close> inside the async function, which rejects its promise.
\<close>

datatype rejection = ClientError string | TypeError

record robj =
  obj_id :: jsval
  obj_prefix :: jsval

datatype response = Resolve "robj list" | Reject rejection

text \<open>
  The calls the client receives. The plan name of \<open>createTestPlan\<close> carries the current
  time and the constant arguments of \<open>createBuild\<close> are left out.
\<close>

datatype rpc_call =
    CheckDevKey
  | CreateTestPlan jsval
  | CreateBuild jsval
  | GetProjects
  | AddTestCaseToTestPlan jsval jsval string nat
  | ReportTCResult tc_result

text \<open>
  The three closures the event handlers pass as \<open>optionsGen\<close>, and the two kinds of
  async function appended to the chain (by \<open>publishTestResults\<close> and by
  \<open>createTestPlan\<close>).
\<close>

datatype options_gen = SuiteGen mocha_suite | TcGen "jsnum option" "js_error option"

datatype task = Publish string options_gen | Provision reporter_options

text \<open>Where a started async function is suspended: the call it awaits.\<close>

datatype frame =
    AwaitCheckDevKey
  | AwaitCreateTestPlan reporter_options
  | AwaitCreateBuild reporter_options
  | AwaitGetProjects reporter_options
  | AwaitAddTestCase tc_result
  | AwaitReport

text \<open>
  Promises live in a store, addressed by their index. \<open>p.then(f)\<close> and \<open>p.catch(g)\<close>
  create a new promise that remembers the promise it was derived from. The promise of
  \<open>.then(async () => ...)\<close> and the promise of the async function it adopts are one
  entry. A promise is \<open>Waiting\<close> until its reaction job has run, \<open>Running\<close> while its
  async function awaits a call, and \<open>Settled\<close> afterwards.
\<close>

datatype settled = Fulfilled | Rejected rejection

datatype pstate = Waiting | Running frame | Settled settled

datatype pkind = Root | Then nat task | Catch nat

record promise =
  kind :: pkind
  pstate :: pstate

record url =
  hostname :: string
  port :: string
  protocol :: string

record connection =
  conn_host :: string
  conn_port :: string
  conn_secure :: bool
  conn_apiKey :: jsval

text \<open>
  The fields of the reporter object, the promise store, and what the outside observes:
  the calls received by the client (each with the promise that issued it) and the lines
  written by \<open>console.error\<close>. \<open>run_begin_armed\<close> is the \<open>once\<close> listener still being
  registered.
\<close>

record reporter =
  reporterOptions :: reporter_options
  testlink :: connection
  run_begin_armed :: bool
  this_testplanid :: jsval
  this_buildid :: jsval
  this_testproject :: "robj option"
  promiseChain :: nat
  promises :: "promise list"
  calls :: "(nat \<times> rpc_call) list"
  console_error :: "rejection list"

text \<open>\<open>new URL(options.URL)\<close> is a platform function: a parameter of the model.\<close>

definition establishTestLinkConnection ::
    "(jsval \<Rightarrow> url option) \<Rightarrow> reporter_options \<Rightarrow> connection option" where
  "establishTestLinkConnection parse_url ro =
     (case parse_url (opt ro ''URL'') of
        None \<Rightarrow> None
      | Some u \<Rightarrow> Some \<lparr> conn_host = hostname u, conn_port = port u,
                         conn_secure = (protocol u = ''https:''),
                         conn_apiKey = opt ro ''apiKey'' \<rparr>)"

text \<open>
  The constructor: validation, the connection, then \<open>checkDevKey().catch(console.error)\<close>.
  The call is issued at once; promise 0 is the call's, promise 1 the \<open>catch\<close>.
\<close>

definition TestLinkReporter ::
    "(jsval \<Rightarrow> url option) \<Rightarrow> reporter_options option \<Rightarrow> config_error + reporter" where
  "TestLinkReporter parse_url options =
     (case validateReporterOptions options of
        Inl e \<Rightarrow> Inl e
      | Inr _ \<Rightarrow>
          (case options of
             None \<Rightarrow> Inl MissingReporterOptions
           | Some ro \<Rightarrow>
               (case establishTestLinkConnection parse_url ro of
                  None \<Rightarrow> Inl InvalidURL
                | Some conn \<Rightarrow>
                    Inr \<lparr> reporterOptions = ro,
                          testlink = conn,
                          run_begin_armed = True,
                          this_testplanid = JUndefined,
                          this_buildid = JUndefined,
                          this_testproject = None,
                          promiseChain = 1,
                          promises = [\<lparr> kind = Root, pstate = Running AwaitCheckDevKey \<rparr>,
                                      \<lparr> kind = Catch 0, pstate = Waiting \<rparr>],
                          calls = [(0, CheckDevKey)],
                          console_error = [] \<rparr>)))"

text \<open>\<open>this.promiseChain = this.promiseChain.then(task).catch(console.error)\<close>\<close>

definition chain_then_catch :: "task \<Rightarrow> reporter \<Rightarrow> reporter" where
  "chain_then_catch t s =
     (let p = length (promises s) in
      s\<lparr> promises := promises s @ [\<lparr> kind = Then (promiseChain s) t, pstate = Waiting \<rparr>,
                                    \<lparr> kind = Catch p, pstate = Waiting \<rparr>],
         promiseChain := Suc p \<rparr>)"

definition publishTestResults :: "string \<Rightarrow> options_gen \<Rightarrow> reporter \<Rightarrow> reporter" where
  "publishTestResults title optionsGen s =
     foldl (\<lambda>s caseId. chain_then_catch (Publish caseId optionsGen) s) s (titleToCaseIds title)"

definition createTestPlan :: "reporter_options \<Rightarrow> reporter \<Rightarrow> reporter" where
  "createTestPlan ro s =
     (if truthy (opt ro ''testplanid'')
      then s\<lparr> this_testplanid := opt ro ''testplanid'', this_buildid := opt ro ''buildid'' \<rparr>
      else chain_then_catch (Provision ro) s)"

datatype event =
    EVENT_RUN_BEGIN
  | EVENT_SUITE_END mocha_suite
  | EVENT_TEST_PASS mocha_test
  | EVENT_TEST_FAIL mocha_test js_error

definition on_event :: "event \<Rightarrow> reporter \<Rightarrow> reporter" where
  "on_event ev s =
     (case ev of
        EVENT_RUN_BEGIN \<Rightarrow>
          if run_begin_armed s
          then createTestPlan (reporterOptions s) (s\<lparr> run_begin_armed := False \<rparr>)
          else s
      | EVENT_SUITE_END suite \<Rightarrow> publishTestResults (suite_title suite) (SuiteGen suite) s
      | EVENT_TEST_PASS t \<Rightarrow> publishTestResults (test_title t) (TcGen (duration t) None) s
      | EVENT_TEST_FAIL t e \<Rightarrow>
          publishTestResults (test_title t) (TcGen (duration t) (Some e)) s)"

subsection \<open>Running the queued functions\<close>

definition set_pstate :: "nat \<Rightarrow> pstate \<Rightarrow> reporter \<Rightarrow> reporter" where
  "set_pstate i st s = s\<lparr> promises := (promises s)[i := (promises s ! i)\<lparr> pstate := st \<rparr>] \<rparr>"

definition issue :: "nat \<Rightarrow> rpc_call \<Rightarrow> reporter \<Rightarrow> reporter" where
  "issue i c s = s\<lparr> calls := calls s @ [(i, c)] \<rparr>"

definition apply_gen :: "reporter \<Rightarrow> options_gen \<Rightarrow> string \<Rightarrow> tc_result" where
  "apply_gen s optionsGen caseId =
     (case optionsGen of
        SuiteGen suite \<Rightarrow> suiteOptions (this_testplanid s) (this_buildid s) caseId suite
      | TcGen d e \<Rightarrow> tcOptions (this_testplanid s) (this_buildid s) caseId d e)"

text \<open>An async function runs synchronously up to its first \<open>await\<close>.\<close>

definition start_task :: "nat \<Rightarrow> task \<Rightarrow> reporter \<Rightarrow> reporter" where
  "start_task i t s =
     (case t of
        Publish caseId optionsGen \<Rightarrow>
          (let options = apply_gen s optionsGen caseId in
           case this_testproject s of
             Some p \<Rightarrow>
               issue i (AddTestCaseToTestPlan (obj_id p) (this_testplanid s)
                          (testcaseexternalid options) 1)
                 (set_pstate i (Running (AwaitAddTestCase options)) s)
           | None \<Rightarrow> issue i (ReportTCResult options) (set_pstate i (Running AwaitReport) s))
      | Provision ro \<Rightarrow>
          issue i (CreateTestPlan (opt ro ''prefix''))
            (set_pstate i (Running (AwaitCreateTestPlan ro)) s))"

text \<open>
  The reaction job of a derived promise, once its source has settled. \<open>then\<close> runs its
  function on fulfilment and passes a rejection on; \<open>catch(console.error)\<close> passes a
  fulfilment on and turns a rejection into a logged line and a fulfilment.
\<close>

definition react :: "nat \<Rightarrow> reporter \<Rightarrow> reporter" where
  "react i s =
     (if i < length (promises s) \<and> pstate (promises s ! i) = Waiting then
        (case kind (promises s ! i) of
           Root \<Rightarrow> s
         | Then src t \<Rightarrow>
             (if src < length (promises s) then
                (case pstate (promises s ! src) of
                   Settled Fulfilled \<Rightarrow> start_task i t s
                 | Settled (Rejected e) \<Rightarrow> set_pstate i (Settled (Rejected e)) s
                 | _ \<Rightarrow> s)
              else s)
         | Catch src \<Rightarrow>
             (if src < length (promises s) then
                (case pstate (promises s ! src) of
                   Settled Fulfilled \<Rightarrow> set_pstate i (Settled Fulfilled) s
                 | Settled (Rejected e) \<Rightarrow>
                     set_pstate i (Settled Fulfilled) (s\<lparr> console_error := console_error s @ [e] \<rparr>)
                 | _ \<Rightarrow> s)
              else s))
      else s)"

definition outcome :: "response \<Rightarrow> settled" where
  "outcome r = (case r of Resolve _ \<Rightarrow> Fulfilled | Reject e \<Rightarrow> Rejected e)"

text \<open>The awaited call settles and the async function continues to its next \<open>await\<close>.\<close>

definition resume :: "nat \<Rightarrow> frame \<Rightarrow> response \<Rightarrow> reporter \<Rightarrow> reporter" where
  "resume i f r s =
     (case f of
        AwaitCheckDevKey \<Rightarrow> set_pstate i (Settled (outcome r)) s
      | AwaitCreateTestPlan ro \<Rightarrow>
          (case r of
             Reject e \<Rightarrow> set_pstate i (Settled (Rejected e)) s
           | Resolve planRes \<Rightarrow>
               (case planRes of
                  [] \<Rightarrow> set_pstate i (Settled (Rejected TypeError)) s
                | x # _ \<Rightarrow>
                    issue i (CreateBuild (obj_id x))
                      (set_pstate i (Running (AwaitCreateBuild ro))
                         (s\<lparr> this_testplanid := obj_id x \<rparr>))))
      | AwaitCreateBuild ro \<Rightarrow>
          (case r of
             Reject e \<Rightarrow> set_pstate i (Settled (Rejected e)) s
           | Resolve buildRes \<Rightarrow>
               (case buildRes of
                  [] \<Rightarrow> set_pstate i (Settled (Rejected TypeError)) s
                | x # _ \<Rightarrow>
                    issue i GetProjects
                      (set_pstate i (Running (AwaitGetProjects ro))
                         (s\<lparr> this_buildid := obj_id x \<rparr>))))
      | AwaitGetProjects ro \<Rightarrow>
          (case r of
             Reject e \<Rightarrow> set_pstate i (Settled (Rejected e)) s
           | Resolve projects \<Rightarrow>
               set_pstate i (Settled Fulfilled)
                 (s\<lparr> this_testproject := find (\<lambda>p. obj_prefix p = opt ro ''prefix'') projects \<rparr>))
      | AwaitAddTestCase options \<Rightarrow>
          (case r of
             Reject e \<Rightarrow> set_pstate i (Settled (Rejected e)) s
           | Resolve _ \<Rightarrow> issue i (ReportTCResult options) (set_pstate i (Running AwaitReport) s))
      | AwaitReport \<Rightarrow> set_pstate i (Settled (outcome r)) s)"

definition respond :: "nat \<Rightarrow> response \<Rightarrow> reporter \<Rightarrow> reporter" where
  "respond i r s =
     (if i < length (promises s) then
        (case pstate (promises s ! i) of Running f \<Rightarrow> resume i f r s | _ \<Rightarrow> s)
      else s)"

text \<open>
  What can happen next is chosen by the environment: the engine emits an event, a reaction
  job of any promise runs, or the client answers the call any promise awaits. An action
  that is not enabled changes nothing. Handlers run to completion, so an event is one step.
  The answer to a call and the continuation of the function that awaits it are one step as
  well: a handler running in between could only append to the chain, which the continuation
  neither reads nor writes.
\<close>

datatype action = Emit event | React nat | Respond nat response

definition step :: "action \<Rightarrow> reporter \<Rightarrow> reporter" where
  "step a s =
     (case a of
        Emit ev \<Rightarrow> on_event ev s
      | React i \<Rightarrow> react i s
      | Respond i r \<Rightarrow> respond i r s)"

fun run :: "action list \<Rightarrow> reporter \<Rightarrow> reporter" where
  "run [] s = s"
| "run (a # as) s = run as (step a s)"

section \<open>Properties of the extraction and of the result records\<close>

lemma re_exec_at_iff:
  "re_exec_at s = Some (g, r) \<longleftrightarrow> s = CHR ''['' # g @ CHR '']'' # r \<and> is_case_token g"
proof
  assume "re_exec_at s = Some (g, r)"
  then show "s = CHR ''['' # g @ CHR '']'' # r \<and> is_case_token g"
    using re_exec_at_Some matches_at_token by blast
next
  assume a: "s = CHR ''['' # g @ CHR '']'' # r \<and> is_case_token g"
  then have mem: "(g, r) \<in> set (re_matches_at s)" by (simp add: matches_at_token)
  then obtain m where m: "re_exec_at s = Some m"
    by (cases "re_matches_at s") (auto simp: re_exec_at_def)
  obtain g' r' where gr: "m = (g', r')" by (cases m)
  have b: "s = CHR ''['' # g' @ CHR '']'' # r'" "is_case_token g'"
    using re_exec_at_Some [OF m] by (simp_all add: gr matches_at_token)
  have eq: "g' @ CHR '']'' # r' = g @ CHR '']'' # r" using a b by simp
  then have "g' = g"
    using token_no_bracket(2) [OF b(2)] a by (blast dest: append_sep_unique token_no_bracket(2))
  then show "re_exec_at s = Some (g, r)" using m gr eq by simp
qed

lemma spec_case_ids_Cons:
  "spec_case_ids (c # cs) =
     (case re_exec_at (c # cs) of Some (g, r) \<Rightarrow> [g] | None \<Rightarrow> []) @ spec_case_ids cs"
  by (simp only: spec_case_ids.simps tokens_at_exec)

lemma spec_case_ids_mem:
  "g \<in> set (spec_case_ids title) \<longleftrightarrow>
     (\<exists>u v. title = u @ CHR ''['' # g @ CHR '']'' # v \<and> is_case_token g)"
proof (induction title)
  case Nil
  then show ?case by simp
next
  case (Cons c cs)
  show ?case
  proof
    assume "g \<in> set (spec_case_ids (c # cs))"
    then consider (here) "g \<in> set (case re_exec_at (c # cs) of Some (g, r) \<Rightarrow> [g] | None \<Rightarrow> [])"
      | (later) "g \<in> set (spec_case_ids cs)"
      unfolding spec_case_ids_Cons by auto
    then show "\<exists>u v. c # cs = u @ CHR ''['' # g @ CHR '']'' # v \<and> is_case_token g"
    proof cases
      case here
      then obtain r where "re_exec_at (c # cs) = Some (g, r)"
        by (cases "re_exec_at (c # cs)") (auto split: prod.splits)
      then have "c # cs = [] @ CHR ''['' # g @ CHR '']'' # r \<and> is_case_token g"
        by (simp add: re_exec_at_iff)
      then show ?thesis by blast
    next
      case later
      then obtain u v where "cs = u @ CHR ''['' # g @ CHR '']'' # v" "is_case_token g"
        using Cons.IH by blast
      then have "c # cs = (c # u) @ CHR ''['' # g @ CHR '']'' # v \<and> is_case_token g" by simp
      then show ?thesis by blast
    qed
  next
    assume "\<exists>u v. c # cs = u @ CHR ''['' # g @ CHR '']'' # v \<and> is_case_token g"
    then obtain u v where uv: "c # cs = u @ CHR ''['' # g @ CHR '']'' # v" and tok: "is_case_token g"
      by blast
    show "g \<in> set (spec_case_ids (c # cs))"
    proof (cases u)
      case Nil
      then have "re_exec_at (c # cs) = Some (g, v)" using uv tok by (simp add: re_exec_at_iff)
      then show ?thesis unfolding spec_case_ids_Cons by simp
    next
      case (Cons x u')
      then have "cs = u' @ CHR ''['' # g @ CHR '']'' # v" using uv by simp
      then have "g \<in> set (spec_case_ids cs)" using Cons.IH tok by blast
      then show ?thesis unfolding spec_case_ids_Cons by simp
    qed
  qed
qed

lemma publish_no_ids: "titleToCaseIds title = [] \<Longrightarrow> publishTestResults title gen s = s"
  by (simp add: publishTestResults_def)

lemma titleToCaseIds_example:
  "titleToCaseIds ''a [AB-1] b [CD-22] [AB-1]'' = [''AB-1'', ''CD-22'', ''AB-1'']"
  by code_simp

text \<open>
  Claim C3. For every title, \<open>titleToCaseIds\<close> returns the inner tokens of all substrings
  of the form \<open>[\<close>, one or more word characters, \<open>-\<close>, one or more digits, \<open>]\<close>, in order
  of appearance and with duplicates: it equals \<open>spec_case_ids\<close>, which walks the start
  positions from left to right and tests every substring that starts there. A token is in
  the result exactly when the title contains it in brackets. The title
  \<open>a [AB-1] b [CD-22] [AB-1]\<close> yields \<open>AB-1\<close>, \<open>CD-22\<close>, \<open>AB-1\<close>; a title without a
  bracketed token yields nothing, and \<open>publishTestResults\<close> then leaves the reporter as it
  was.
\<close>
theorem titleToCaseIds_extracts:
  "titleToCaseIds title = spec_case_ids title
   \<and> (\<forall>g. g \<in> set (titleToCaseIds title) \<longleftrightarrow>
          (\<exists>u v. title = u @ ''['' @ g @ '']'' @ v \<and> is_case_token g))
   \<and> titleToCaseIds ''a [AB-1] b [CD-22] [AB-1]'' = [''AB-1'', ''CD-22'', ''AB-1'']
   \<and> ((\<forall>u g v. title = u @ ''['' @ g @ '']'' @ v \<longrightarrow> \<not> is_case_token g)
        \<longrightarrow> titleToCaseIds title = [] \<and> publishTestResults title gen s = s)"
proof -
  have eq: "titleToCaseIds title = spec_case_ids title"
    unfolding titleToCaseIds_def by (rule matchAll_spec_case_ids [unfolded titleToCaseIds_def])
  have mem: "g \<in> set (titleToCaseIds title) \<longleftrightarrow>
      (\<exists>u v. title = u @ ''['' @ g @ '']'' @ v \<and> is_case_token g)" for g
    unfolding eq spec_case_ids_mem by simp
  have none: "titleToCaseIds title = [] \<and> publishTestResults title gen s = s"
    if "\<forall>u g v. title = u @ ''['' @ g @ '']'' @ v \<longrightarrow> \<not> is_case_token g"
  proof -
    have "g \<notin> set (titleToCaseIds title)" for g using that mem [of g] by blast
    then have "titleToCaseIds title = []" by (cases "titleToCaseIds title") auto
    then show ?thesis by (simp add: publish_no_ids)
  qed
  show ?thesis using eq mem none titleToCaseIds_example by blast
qed

lemma no_bracket_no_token:
  assumes "CHR ''['' \<notin> set title" "title = u @ ''['' @ g @ '']'' @ v"
  shows False
proof -
  have "CHR ''['' \<in> set (u @ ''['' @ g @ '']'' @ v)" by simp
  then show False using assms by simp
qed

text \<open>The theorem of claim C3 at a title without a bracket.\<close>
theorem titleToCaseIds_extracts_witness:
  "titleToCaseIds ''renders header'' = []
   \<and> (\<forall>s. publishTestResults ''renders header'' (TcGen (Some (Finite 1200)) None) s = s)"
proof -
  have nb: "CHR ''['' \<notin> set ''renders header''" by simp
  have "\<forall>u g v. ''renders header'' = u @ ''['' @ g @ '']'' @ v \<longrightarrow> \<not> is_case_token g"
    using no_bracket_no_token [OF nb] by blast
  then show ?thesis
    using titleToCaseIds_extracts [of "''renders header''" "TcGen (Some (Finite 1200)) None"] by blast
qed

lemma length_map_idx: "length (map_idx f k ts) = length ts"
  by (induction ts arbitrary: k) auto

lemma nth_map_idx: "i < length ts \<Longrightarrow> map_idx f k ts ! i = f (ts ! i) (k + i)"
proof (induction ts arbitrary: k i)
  case Nil
  then show ?case by simp
next
  case (Cons t ts)
  then show ?case by (cases i) auto
qed

subsection \<open>Rounding to a double\<close>

lemma pow2_powi: "pow2 k = 2 powi k"
  by (simp add: pow2_def power_int_def inverse_eq_divide power_one_over)

lemma pow2_pos: "0 < pow2 k"
  by (simp add: pow2_powi)

lemma pow2_add: "pow2 (a + b) = pow2 a * pow2 b"
  by (simp add: pow2_powi power_int_add)

lemma pow2_nat: "pow2 (int n) = 2 ^ n"
  by (simp add: pow2_def)

lemma pow2_mono: "a \<le> b \<Longrightarrow> pow2 a \<le> pow2 b"
  by (simp add: pow2_powi power_int_increasing)

lemma pow2_less_cancel: "pow2 a < pow2 b \<Longrightarrow> a < b"
  using pow2_mono [of b a] by (cases "a < b") auto

lemma ilog2_nonneg: "0 \<le> ilog2 n"
  by (induction n rule: ilog2.induct) (subst ilog2.simps, simp)

lemma ilog2_bounds: "0 < n \<Longrightarrow> 2 ^ nat (ilog2 n) \<le> n \<and> n < 2 ^ nat (ilog2 n + 1)"
proof (induction n rule: ilog2.induct)
  case (1 n)
  show ?case
  proof (cases "n < 2")
    case True
    with 1(2) have "n = 1" by simp
    then show ?thesis by (subst (1 2) ilog2.simps) simp
  next
    case False
    then have pos: "0 < n div 2" by simp
    have ih: "2 ^ nat (ilog2 (n div 2)) \<le> n div 2 \<and> n div 2 < 2 ^ nat (ilog2 (n div 2) + 1)"
      using 1(1) [OF False pos] .
    have e: "ilog2 n = ilog2 (n div 2) + 1" using False by (subst ilog2.simps) simp
    have n1: "nat (ilog2 (n div 2) + 1) = Suc (nat (ilog2 (n div 2)))"
      using ilog2_nonneg [of "n div 2"] by simp
    have n2: "nat (ilog2 (n div 2) + 1 + 1) = Suc (Suc (nat (ilog2 (n div 2))))"
      using ilog2_nonneg [of "n div 2"] by simp
    show ?thesis unfolding e n1 n2 using ih unfolding n1 by auto
  qed
qed


lemma pow2_diff: "pow2 (int m - int n) = 2 ^ m / 2 ^ n"
proof -
  have "pow2 (int m - int n) = pow2 (int m) * pow2 (- int n)"
    using pow2_add [of "int m" "- int n"] by simp
  also have "pow2 (- int n) = 1 / 2 ^ n" by (simp add: pow2_def)
  finally show ?thesis by (simp add: pow2_nat)
qed

lemma exponent_bounds:
  assumes "0 < x"
  shows "pow2 (exponent x) \<le> x \<and> x < pow2 (exponent x + 1)"
proof -
  obtain a b where q: "quotient_of x = (a, b)" by (cases "quotient_of x")
  have b: "0 < b" using quotient_of_denom_pos [OF q] .
  have x: "x = of_int a / of_int b" using quotient_of_div [OF q] .
  have a: "0 < a" using assms b unfolding x by (simp add: zero_less_divide_iff)
  define ka where "ka = nat (ilog2 a)"
  define kb where "kb = nat (ilog2 b)"
  have ia: "ilog2 a = int ka" and ib: "ilog2 b = int kb"
    using ilog2_nonneg [of a] ilog2_nonneg [of b] by (simp_all add: ka_def kb_def)
  have ba: "2 ^ ka \<le> a" "a < 2 ^ Suc ka"
    using ilog2_bounds [OF a] ilog2_nonneg [of a] by (simp_all add: ka_def nat_add_distrib)
  have bb: "2 ^ kb \<le> b" "b < 2 ^ Suc kb"
    using ilog2_bounds [OF b] ilog2_nonneg [of b] by (simp_all add: kb_def nat_add_distrib)
  have ra: "(2::rat) ^ ka \<le> of_int a" "(of_int a :: rat) < 2 ^ Suc ka"
    using ba by (metis of_int_le_iff of_int_numeral of_int_power, metis of_int_less_iff of_int_numeral of_int_power)
  have rb: "(2::rat) ^ kb \<le> of_int b" "(of_int b :: rat) < 2 ^ Suc kb"
    using bb by (metis of_int_le_iff of_int_numeral of_int_power, metis of_int_less_iff of_int_numeral of_int_power)
  have pa: "(0::rat) < of_int a" and pb: "(0::rat) < of_int b" using a b by simp_all
  define k where "k = int ka - int kb"
  have up: "x < pow2 (k + 1)"
  proof -
    have "k + 1 = int (Suc ka) - int kb" by (simp add: k_def)
    then have "pow2 (k + 1) = 2 ^ Suc ka / 2 ^ kb"
      by (simp only: pow2_diff)
    moreover have "of_int a / of_int b < (2::rat) ^ Suc ka / 2 ^ kb"
      using ra(2) rb(1) pa pb by (intro frac_less) simp_all
    ultimately show ?thesis unfolding x by simp
  qed
  have lo: "pow2 (k - 1) < x"
  proof -
    have "k - 1 = int ka - int (Suc kb)" by (simp add: k_def)
    then have "pow2 (k - 1) = 2 ^ ka / 2 ^ Suc kb"
      by (simp only: pow2_diff)
    moreover have "(2::rat) ^ ka / 2 ^ Suc kb < of_int a / of_int b"
      using ra(1) rb(2) pa pb by (intro frac_less2) simp_all
    ultimately show ?thesis unfolding x by simp
  qed
  have e: "exponent x = (if pow2 k \<le> x then k else k - 1)"
    by (simp add: exponent_def q ia ib k_def)
  show ?thesis
  proof (cases "pow2 k \<le> x")
    case True
    then show ?thesis using up e by simp
  next
    case False
    then show ?thesis using lo e by simp
  qed
qed

lemma round_half_even_of_int: "round_half_even (of_int j) = j"
  by (simp add: round_half_even_def)

lemma round_half_even_near: "\<bar>of_int (round_half_even q) - q\<bar> \<le> 1 / 2"
proof -
  define f where "f = \<lfloor>q\<rfloor>"
  have b: "of_int f \<le> q" "q < of_int f + 1" unfolding f_def by linarith+
  have r: "round_half_even q = f \<and> q - of_int f \<le> 1 / 2
         \<or> round_half_even q = f + 1 \<and> 1 / 2 \<le> q - of_int f"
    unfolding round_half_even_def Let_def f_def [symmetric] by auto
  then show ?thesis
  proof
    assume "round_half_even q = f \<and> q - of_int f \<le> 1 / 2"
    then show ?thesis using b by (simp add: abs_if)
  next
    assume "round_half_even q = f + 1 \<and> 1 / 2 \<le> q - of_int f"
    then show ?thesis using b by (simp add: abs_if)
  qed
qed

lemma to_double_zero: "to_double 0 = Finite 0"
  using pow2_pos [of 1024]
  by (simp add: to_double_def round_magnitude_def round_half_even_def not_le)

lemma to_double_nat:
  assumes "n < 2 ^ 53"
  shows "to_double (of_nat n) = Finite (of_nat n)"
proof (cases "n = 0")
  case True
  then show ?thesis by (simp add: to_double_zero)
next
  case False
  define x :: rat where "x = of_nat n"
  have x1: "1 \<le> x" using False by (simp add: x_def)
  have x53: "x < 2 ^ 53" using assms unfolding x_def
    by (metis of_nat_less_iff of_nat_numeral of_nat_power)
  have pos: "0 < x" using x1 by simp
  define e where "e = exponent x"
  have eb: "pow2 e \<le> x" "x < pow2 (e + 1)" using exponent_bounds [OF pos] by (simp_all add: e_def)
  have "pow2 0 < pow2 (e + 1)" using x1 eb(2) by (simp add: pow2_def)
  then have e0: "0 \<le> e" using pow2_less_cancel [of 0 "e + 1"] by simp
  have "pow2 e < pow2 53" using eb(1) x53 by (simp add: pow2_def)
  then have e53: "e < 53" using pow2_less_cancel by blast
  define k where "k = nat (52 - e)"
  have u: "ulp x = 1 / 2 ^ k"
  proof -
    have "max e (- 1022) - 52 = - int k" using e0 e53 by (simp add: k_def)
    then have "ulp x = pow2 (- int k)" by (simp add: ulp_def e_def [symmetric])
    then show ?thesis by (simp add: pow2_def)
  qed
  have q: "x / ulp x = of_int (int (n * 2 ^ k))" unfolding u by (simp add: x_def)
  have m: "round_magnitude x = x"
    unfolding round_magnitude_def q round_half_even_of_int unfolding u by (simp add: x_def)
  have "\<not> pow2 1024 \<le> x" using x53 by (simp add: pow2_def)
  then show ?thesis
    using pos by (simp add: to_double_def m x_def [symmetric] Let_def abs_if)
qed


lemma round_magnitude_near:
  assumes "0 < x"
  shows "\<bar>round_magnitude x - x\<bar> \<le> ulp x / 2"
proof -
  have u: "0 < ulp x" by (simp add: ulp_def pow2_pos)
  have "round_magnitude x - x = (of_int (round_half_even (x / ulp x)) - x / ulp x) * ulp x"
    using u by (simp add: round_magnitude_def algebra_simps)
  then have "\<bar>round_magnitude x - x\<bar> = \<bar>of_int (round_half_even (x / ulp x)) - x / ulp x\<bar> * ulp x"
    using u by (simp add: abs_mult)
  also have "\<dots> \<le> (1 / 2) * ulp x"
    using round_half_even_near [of "x / ulp x"] u by (intro mult_right_mono) simp_all
  finally show ?thesis by simp
qed

lemma to_double_near:
  assumes lo: "pow2 (- 1022) \<le> x" and hi: "x < pow2 1023"
  shows "\<exists>m. to_double x = Finite m \<and> \<bar>m - x\<bar> \<le> x / 2 ^ 53"
proof -
  have pos: "0 < x" using lo pow2_pos [of "- 1022"] by simp
  define e where "e = exponent x"
  have eb: "pow2 e \<le> x" "x < pow2 (e + 1)" using exponent_bounds [OF pos] by (simp_all add: e_def)
  have "pow2 (- 1022) < pow2 (e + 1)" using lo eb(2) by simp
  then have e1: "- 1022 \<le> e" using pow2_less_cancel [of "- 1022" "e + 1"] by simp
  have "ulp x = pow2 (e + (- 52))" using e1 by (simp add: ulp_def e_def [symmetric] max_def)
  also have "\<dots> = pow2 e / 2 ^ 52" unfolding pow2_add by (simp add: pow2_def)
  finally have u: "ulp x = pow2 e / 2 ^ 52" .
  have "ulp x / 2 \<le> x / 2 ^ 53" unfolding u using eb(1) by simp
  then have near: "\<bar>round_magnitude x - x\<bar> \<le> x / 2 ^ 53"
    using round_magnitude_near [OF pos] by simp
  have small: "x / 2 ^ 53 < x" using pos by simp
  have m0: "0 < round_magnitude x" using near small by (simp add: abs_if split: if_splits)
  have "round_magnitude x \<le> x + x / 2 ^ 53" using near by (simp add: abs_if split: if_splits)
  also have "\<dots> < x + x" using small by simp
  also have "\<dots> < pow2 1023 + pow2 1023" using hi by simp
  also have "\<dots> = pow2 (1023 + 1)" unfolding pow2_add by (simp add: pow2_def)
  finally have m1: "\<not> pow2 1024 \<le> round_magnitude x" by simp
  have "to_double x = Finite (round_magnitude x)"
    using pos m0 m1 by (simp add: to_double_def Let_def abs_if)
  then show ?thesis using near by blast
qed

lemma to_double_1: "to_double 1 = Finite 1"
  using to_double_nat [of 1] by simp

lemma to_double_2: "to_double 2 = Finite 2"
  using to_double_nat [of 2] by simp

subsection \<open>Sums and quotients of durations\<close>

lemma js_add_NaN: "js_add NaN y = NaN" "js_add x NaN = NaN"
  by (simp_all add: js_add_def)

lemma js_div_NaN: "js_div NaN y = NaN"
  by (simp add: js_div_def)

lemma js_div_60000: "js_div (Finite r) (Finite 60000) = to_double (r / 60000)"
  by (simp add: js_div_def signed_zero_def to_double_zero)

lemma js_add_nat:
  assumes "i + j < 2 ^ 53"
  shows "js_add (Finite (of_nat i)) (Finite (of_nat j)) = Finite (of_nat (i + j))"
proof -
  have "js_add (Finite (of_nat i)) (Finite (of_nat j)) = to_double (of_nat (i + j))"
    by (simp add: js_add_def)
  then show ?thesis using to_double_nat [OF assms] by simp
qed

lemma foldl_js_add_nat:
  "a + sum_list ns < 2 ^ 53 \<Longrightarrow>
     foldl js_add (Finite (of_nat a)) (map (\<lambda>n. Finite (of_nat n)) ns)
       = Finite (of_nat (a + sum_list ns))"
proof (induction ns arbitrary: a)
  case Nil
  then show ?case by simp
next
  case (Cons n ns)
  have le: "a + n < 2 ^ 53" using Cons.prems by simp
  have "(a + n) + sum_list ns < 2 ^ 53" using Cons.prems by (simp add: add.assoc)
  then show ?case using Cons.IH [of "a + n"] js_add_nat [OF le] by (simp add: add.assoc)
qed

lemma foldl_duration:
  "foldl (\<lambda>acc t. js_add acc (to_number (duration t))) a ts
     = foldl js_add a (map (\<lambda>t. to_number (duration t)) ts)"
  by (induction ts arbitrary: a) auto

lemma foldl_js_add_NaN: "foldl js_add NaN xs = NaN"
  by (induction xs) (auto simp: js_add_NaN)

lemma foldl_js_add_missing: "NaN \<in> set xs \<Longrightarrow> foldl js_add a xs = NaN"
proof (induction xs arbitrary: a)
  case Nil
  then show ?case by simp
next
  case (Cons x xs)
  show ?case
  proof (cases "x = NaN")
    case True
    then show ?thesis by (simp add: js_add_NaN foldl_js_add_NaN)
  next
    case False
    then have "NaN \<in> set xs" using Cons.prems by auto
    then show ?thesis using Cons.IH by simp
  qed
qed

lemma whole_durations:
  assumes "map duration ts = map (\<lambda>n. Some (Finite (of_nat n))) ns"
  shows "map (\<lambda>t. to_number (duration t)) ts = map (\<lambda>n. Finite (of_nat n)) ns"
proof -
  have "map (\<lambda>t. to_number (duration t)) ts = map to_number (map duration ts)" by simp
  also have "\<dots> = map (\<lambda>n. Finite (of_nat n)) ns" unfolding assms by simp
  finally show ?thesis .
qed

text \<open>Two suites: one whose tests have all run, one with a pending test.\<close>

definition demo_suite :: mocha_suite where
  "demo_suite =
     \<lparr> suite_title = ''s [AB-1]'', tests =
        [\<lparr> test_title = ''a'', state = STATE_PASSED, duration = Some (Finite 30000), err = None \<rparr>,
         \<lparr> test_title = ''b'', state = STATE_FAILED, duration = Some (Finite 90000),
           err = Some \<lparr> stack = ''Error: boom'' \<rparr> \<rparr>] \<rparr>"

definition demo_suite_pending :: mocha_suite where
  "demo_suite_pending =
     \<lparr> suite_title = ''s [AB-1]'', tests =
        [\<lparr> test_title = ''a'', state = STATE_PASSED, duration = Some (Finite 30000), err = None \<rparr>,
         \<lparr> test_title = ''c'', state = STATE_PENDING, duration = None, err = None \<rparr>] \<rparr>"

text \<open>
  Claim C4. The record built for a suite has status \<open>FAILED\<close> when some test of the suite
  is not in state passed and \<open>PASSED\<close> otherwise (so for a suite without tests). Its duration
  is the durations of the tests, added from 0 in the order of the tests and divided by 60000,
  in double arithmetic: for durations that are whole numbers of milliseconds, below
  \<open>2 ^ 53\<close> in total, it is the double nearest to their sum divided by 60000; but it is \<open>NaN\<close>
  as soon as one test of the suite has no duration (a pending test), where the claim asks
  for the sum of the durations there are. The record has one step per test, in order,
  numbered from 1, whose result mirrors the test's state and whose notes are the stack of
  the test's error, or the empty string when the test has no error.
\<close>
theorem suiteOptions_record:
  "status (suiteOptions p b c suite) =
      (if (\<exists>t \<in> set (tests suite). state t \<noteq> STATE_PASSED) then FAILED else PASSED)
   \<and> (tests suite = [] \<longrightarrow> status (suiteOptions p b c suite) = PASSED)
   \<and> execduration (suiteOptions p b c suite) =
        js_div (foldl js_add (Finite 0) (map (\<lambda>t. to_number (duration t)) (tests suite)))
          (Finite 60000)
   \<and> (map duration (tests suite) = map (\<lambda>n. Some (Finite (of_nat n))) ns \<and> sum_list ns < 2 ^ 53
        \<longrightarrow> execduration (suiteOptions p b c suite) = to_double (of_nat (sum_list ns) / 60000))
   \<and> ((\<exists>t \<in> set (tests suite). duration t = None)
        \<longrightarrow> execduration (suiteOptions p b c suite) = NaN)
   \<and> length (steps (suiteOptions p b c suite)) = length (tests suite)
   \<and> (\<forall>i < length (tests suite).
         steps (suiteOptions p b c suite) ! i =
           \<lparr> step_number = i + 1,
             result = (if state (tests suite ! i) = STATE_PASSED then PASSED else FAILED),
             step_notes = (case err (tests suite ! i) of Some e \<Rightarrow> stack e | None \<Rightarrow> []) \<rparr>)"
proof -
  have d: "execduration (suiteOptions p b c suite) =
        js_div (foldl js_add (Finite 0) (map (\<lambda>t. to_number (duration t)) (tests suite)))
          (Finite 60000)"
    by (simp add: suiteOptions_def foldl_duration)
  have whole: "execduration (suiteOptions p b c suite) = to_double (of_nat (sum_list ns) / 60000)"
    if h: "map duration (tests suite) = map (\<lambda>n. Some (Finite (of_nat n))) ns"
      and lt: "sum_list ns < 2 ^ 53"
  proof -
    have "foldl js_add (Finite (of_nat 0)) (map (\<lambda>n. Finite (of_nat n)) ns)
            = Finite (of_nat (0 + sum_list ns))"
      using lt by (intro foldl_js_add_nat) simp
    then have "foldl js_add (Finite 0) (map (\<lambda>t. to_number (duration t)) (tests suite))
            = Finite (of_nat (sum_list ns))"
      unfolding whole_durations [OF h] by simp
    then show ?thesis unfolding d by (simp only: js_div_60000)
  qed
  have missing: "execduration (suiteOptions p b c suite) = NaN"
    if "\<exists>t \<in> set (tests suite). duration t = None"
  proof -
    from that obtain t where t: "t \<in> set (tests suite)" "duration t = None" by blast
    have "to_number (duration t) \<in> set (map (\<lambda>t. to_number (duration t)) (tests suite))"
      using t(1) by (simp only: set_map) (rule imageI)
    then have "NaN \<in> set (map (\<lambda>t. to_number (duration t)) (tests suite))"
      using t(2) by simp
    then show ?thesis unfolding d by (simp only: foldl_js_add_missing js_div_NaN)
  qed
  have rest: "status (suiteOptions p b c suite) =
      (if (\<exists>t \<in> set (tests suite). state t \<noteq> STATE_PASSED) then FAILED else PASSED)
   \<and> (tests suite = [] \<longrightarrow> status (suiteOptions p b c suite) = PASSED)
   \<and> length (steps (suiteOptions p b c suite)) = length (tests suite)
   \<and> (\<forall>i < length (tests suite).
         steps (suiteOptions p b c suite) ! i =
           \<lparr> step_number = i + 1,
             result = (if state (tests suite ! i) = STATE_PASSED then PASSED else FAILED),
             step_notes = (case err (tests suite ! i) of Some e \<Rightarrow> stack e | None \<Rightarrow> []) \<rparr>)"
    by (simp add: suiteOptions_def list_ex_iff length_map_idx nth_map_idx suite_step_def)
  show ?thesis using d whole missing rest by blast
qed

text \<open>
  The theorem of claim C4 at a suite with a passed and a failed test, at an empty suite,
  and at a suite with a pending test, whose record has the duration \<open>NaN\<close>.
\<close>
theorem suiteOptions_record_witness:
  "status (suiteOptions (JStr ''14'') (JStr ''1'') ''AB-1'' demo_suite) = FAILED
   \<and> status (suiteOptions (JStr ''14'') (JStr ''1'') ''AB-1''
        \<lparr> suite_title = ''s [AB-1]'', tests = [] \<rparr>) = PASSED
   \<and> steps (suiteOptions (JStr ''14'') (JStr ''1'') ''AB-1'' demo_suite) ! 1 =
        \<lparr> step_number = 2, result = FAILED, step_notes = ''Error: boom'' \<rparr>
   \<and> execduration (suiteOptions (JStr ''14'') (JStr ''1'') ''AB-1'' demo_suite) = Finite 2
   \<and> status (suiteOptions (JStr ''14'') (JStr ''1'') ''AB-1'' demo_suite_pending) = FAILED
   \<and> execduration (suiteOptions (JStr ''14'') (JStr ''1'') ''AB-1'' demo_suite_pending) = NaN"
proof -
  note a = suiteOptions_record [of "JStr ''14''" "JStr ''1''" "''AB-1''" demo_suite "[30000, 90000]"]
  note e = suiteOptions_record [of "JStr ''14''" "JStr ''1''" "''AB-1''"
      "\<lparr> suite_title = ''s [AB-1]'', tests = [] \<rparr>" "[]"]
  note n = suiteOptions_record [of "JStr ''14''" "JStr ''1''" "''AB-1''" demo_suite_pending "[]"]
  have 1: "status (suiteOptions (JStr ''14'') (JStr ''1'') ''AB-1'' demo_suite) = FAILED"
    using a [THEN conjunct1] by (simp add: demo_suite_def)
  have 2: "status (suiteOptions (JStr ''14'') (JStr ''1'') ''AB-1''
        \<lparr> suite_title = ''s [AB-1]'', tests = [] \<rparr>) = PASSED"
    using e [THEN conjunct1] by simp
  have 3: "steps (suiteOptions (JStr ''14'') (JStr ''1'') ''AB-1'' demo_suite) ! 1 =
        \<lparr> step_number = 2, result = FAILED, step_notes = ''Error: boom'' \<rparr>"
    using a [THEN conjunct2, THEN conjunct2, THEN conjunct2, THEN conjunct2, THEN conjunct2,
        THEN conjunct2, rule_format, of 1]
    by (simp add: demo_suite_def)
  have 4: "execduration (suiteOptions (JStr ''14'') (JStr ''1'') ''AB-1'' demo_suite) = Finite 2"
    using a [THEN conjunct2, THEN conjunct2, THEN conjunct2, THEN conjunct1]
    by (simp add: demo_suite_def to_double_2)
  have 5: "status (suiteOptions (JStr ''14'') (JStr ''1'') ''AB-1'' demo_suite_pending) = FAILED"
    using n [THEN conjunct1] by (simp add: demo_suite_pending_def)
  have 6: "execduration (suiteOptions (JStr ''14'') (JStr ''1'') ''AB-1'' demo_suite_pending) = NaN"
    using n [THEN conjunct2, THEN conjunct2, THEN conjunct2, THEN conjunct2, THEN conjunct1]
    by (simp add: demo_suite_pending_def)
  show ?thesis using 1 2 3 4 5 6 by simp
qed



text \<open>
  Claim C9, as the code has it. The duration in minutes is the duration in milliseconds
  divided by 60000 in double arithmetic: the double nearest to the exact quotient, within
  the relative error \<open>2 ^ - 53\<close> of it in the normal range, and so not the exact quotient
  unless that is a double. 60000 gives 1, 0 gives 0 and 1200 gives the double that the
  literal \<open>0.02\<close> denotes. For a suite the milliseconds are the durations of its tests added
  up from 0.
\<close>
theorem execduration_minutes:
  "execduration (tcOptions p b c d e) = js_div (to_number d) (Finite 60000)
   \<and> execduration (tcOptions p b c (Some (Finite r)) e) = to_double (r / 60000)
   \<and> (pow2 (- 1022) \<le> r / 60000 \<and> r / 60000 < pow2 1023 \<longrightarrow>
        (\<exists>m. execduration (tcOptions p b c (Some (Finite r)) e) = Finite m
            \<and> \<bar>m - r / 60000\<bar> \<le> r / 60000 / 2 ^ 53))
   \<and> execduration (tcOptions p b c (Some (Finite 60000)) e) = Finite 1
   \<and> execduration (tcOptions p b c (Some (Finite 0)) e) = Finite 0
   \<and> execduration (tcOptions p b c (Some (Finite 1200)) e) = to_double 0.02
   \<and> execduration (suiteOptions p b c suite) =
        js_div (foldl js_add (Finite 0) (map (\<lambda>t. to_number (duration t)) (tests suite)))
          (Finite 60000)"
proof -
  have q: "execduration (tcOptions p b c (Some (Finite x)) e) = to_double (x / 60000)" for x
    by (simp add: tcOptions_def js_div_60000)
  have 1: "execduration (tcOptions p b c d e) = js_div (to_number d) (Finite 60000)"
    by (simp add: tcOptions_def)
  have 3: "\<exists>m. execduration (tcOptions p b c (Some (Finite r)) e) = Finite m
            \<and> \<bar>m - r / 60000\<bar> \<le> r / 60000 / 2 ^ 53"
    if "pow2 (- 1022) \<le> r / 60000" "r / 60000 < pow2 1023"
    unfolding q using to_double_near [OF that] .
  have 4: "execduration (tcOptions p b c (Some (Finite 60000)) e) = Finite 1"
    unfolding q by (simp add: to_double_1)
  have 5: "execduration (tcOptions p b c (Some (Finite 0)) e) = Finite 0"
    unfolding q by (simp add: to_double_zero)
  have 6: "execduration (tcOptions p b c (Some (Finite 1200)) e) = to_double 0.02"
    unfolding q by simp
  have 7: "execduration (suiteOptions p b c suite) =
        js_div (foldl js_add (Finite 0) (map (\<lambda>t. to_number (duration t)) (tests suite)))
          (Finite 60000)"
    by (simp add: suiteOptions_def foldl_duration)
  show ?thesis using 1 q [of r] 3 4 5 6 7 by blast
qed

text \<open>
  The theorem of claim C9 at 100 milliseconds: the duration in minutes is a double within
  the relative error \<open>2 ^ - 53\<close> of \<open>1 / 600\<close>.
\<close>
theorem execduration_minutes_witness:
  "pow2 (- 1022) \<le> 100 / 60000 \<and> 100 / 60000 < pow2 1023
   \<and> (\<exists>m. execduration (tcOptions JUndefined JUndefined ''XPJ-5'' (Some (Finite 100)) None)
             = Finite m
         \<and> \<bar>m - 100 / 60000\<bar> \<le> 100 / 60000 / 2 ^ 53)"
proof -
  have a: "pow2 (- 1022) \<le> 100 / 60000" "100 / 60000 < pow2 1023"
    by (simp_all add: pow2_def)
  show ?thesis
    using execduration_minutes [of JUndefined JUndefined "''XPJ-5''" "Some (Finite 100)" None 100
        "\<lparr> suite_title = [], tests = [] \<rparr>"] a
    by blast
qed

text \<open>
  Claim C9 as the specification words it fails: the division is not exact. At 100
  milliseconds the duration in minutes is not \<open>100 / 60000\<close>, which is no double, but the
  double next to it.
\<close>
theorem exact_division_counterexample:
  "execduration (tcOptions JUndefined JUndefined ''XPJ-5'' (Some (Finite 100)) None)
     = Finite (7686143364045647 / 4611686018427387904)
   \<and> execduration (tcOptions JUndefined JUndefined ''XPJ-5'' (Some (Finite 100)) None)
     \<noteq> Finite (100 / 60000)"
proof -
  have "js_div (Finite 100) (Finite 60000) = Finite (7686143364045647 / 4611686018427387904)"
    by code_simp
  then show ?thesis by (simp add: tcOptions_def)
qed

section \<open>Properties of the validation\<close>

lemma opt_absent: "ro k = None \<Longrightarrow> opt ro k = JUndefined"
  by (simp add: opt_def)

lemma validate_missing_URL:
  "\<not> truthy (opt ro ''URL'') \<Longrightarrow> \<exists>e. validateReporterOptions (Some ro) = Inl e"
  by (simp add: validateReporterOptions_def)

lemma validate_missing_apiKey:
  "\<not> truthy (opt ro ''apiKey'') \<Longrightarrow> \<exists>e. validateReporterOptions (Some ro) = Inl e"
  by (simp add: validateReporterOptions_def)

lemma validate_neither:
  "\<not> (truthy (opt ro ''testplanid'') \<and> truthy (opt ro ''buildid'')) \<Longrightarrow> \<not> truthy (opt ro ''prefix'')
     \<Longrightarrow> validateReporterOptions (Some ro) = Inl EitherPlanOrPrefix"
  by (simp add: validateReporterOptions_def)

lemma validate_prefix_enough:
  "truthy (opt ro ''URL'') \<Longrightarrow> truthy (opt ro ''apiKey'') \<Longrightarrow> truthy (opt ro ''prefix'')
     \<Longrightarrow> validateReporterOptions (Some ro) = Inr ()"
  by (simp add: validateReporterOptions_def)

lemma constructor_throws:
  "validateReporterOptions options = Inl e \<Longrightarrow> TestLinkReporter parse_url options = Inl e"
  by (simp add: TestLinkReporter_def)

text \<open>
  Claim C6. When the \<open>URL\<close> option or the \<open>apiKey\<close> option is absent, or when \<open>prefix\<close>
  is absent together with \<open>testplanid\<close> or \<open>buildid\<close>, validation fails and the constructor
  fails with the same error, returning no reporter: no call has been issued and no promise
  created. \<open>URL\<close>, \<open>apiKey\<close> and \<open>prefix\<close> alone pass validation. Whenever the constructor
  returns a reporter, validation has passed and the only call issued so far is
  \<open>checkDevKey\<close>.
\<close>
theorem validateReporterOptions_raises:
  "(ro ''URL'' = None \<longrightarrow>
      (\<exists>e. validateReporterOptions (Some ro) = Inl e \<and> TestLinkReporter parse_url (Some ro) = Inl e))
   \<and> (ro ''apiKey'' = None \<longrightarrow>
      (\<exists>e. validateReporterOptions (Some ro) = Inl e \<and> TestLinkReporter parse_url (Some ro) = Inl e))
   \<and> ((ro ''testplanid'' = None \<or> ro ''buildid'' = None) \<and> ro ''prefix'' = None \<longrightarrow>
      validateReporterOptions (Some ro) = Inl EitherPlanOrPrefix
      \<and> TestLinkReporter parse_url (Some ro) = Inl EitherPlanOrPrefix)
   \<and> (truthy (opt ro ''URL'') \<and> truthy (opt ro ''apiKey'') \<and> truthy (opt ro ''prefix'') \<longrightarrow>
      validateReporterOptions (Some ro) = Inr ())
   \<and> (\<forall>s. TestLinkReporter parse_url (Some ro) = Inr s \<longrightarrow>
      validateReporterOptions (Some ro) = Inr () \<and> calls s = [(0, CheckDevKey)])"
proof (intro conjI impI allI)
  assume "ro ''URL'' = None"
  then obtain e where "validateReporterOptions (Some ro) = Inl e"
    using validate_missing_URL [of ro] by (auto simp: opt_absent)
  then show "\<exists>e. validateReporterOptions (Some ro) = Inl e \<and> TestLinkReporter parse_url (Some ro) = Inl e"
    using constructor_throws by blast
next
  assume "ro ''apiKey'' = None"
  then obtain e where "validateReporterOptions (Some ro) = Inl e"
    using validate_missing_apiKey [of ro] by (auto simp: opt_absent)
  then show "\<exists>e. validateReporterOptions (Some ro) = Inl e \<and> TestLinkReporter parse_url (Some ro) = Inl e"
    using constructor_throws by blast
next
  assume a: "(ro ''testplanid'' = None \<or> ro ''buildid'' = None) \<and> ro ''prefix'' = None"
  then show v: "validateReporterOptions (Some ro) = Inl EitherPlanOrPrefix"
    by (intro validate_neither) (auto simp: opt_absent)
  then show "TestLinkReporter parse_url (Some ro) = Inl EitherPlanOrPrefix"
    by (rule constructor_throws)
next
  assume "truthy (opt ro ''URL'') \<and> truthy (opt ro ''apiKey'') \<and> truthy (opt ro ''prefix'')"
  then show "validateReporterOptions (Some ro) = Inr ()" by (simp add: validate_prefix_enough)
next
  fix s assume s: "TestLinkReporter parse_url (Some ro) = Inr s"
  then show "validateReporterOptions (Some ro) = Inr ()"
    by (cases "validateReporterOptions (Some ro)") (auto simp: TestLinkReporter_def)
  from s show "calls s = [(0, CheckDevKey)]"
    by (auto simp: TestLinkReporter_def split: sum.splits option.splits)
qed

definition demo_url :: "jsval \<Rightarrow> url option" where
  "demo_url v = (if v = JStr ''http://localhost:80''
                 then Some \<lparr> hostname = ''localhost'', port = ''80'', protocol = ''http:'' \<rparr>
                 else None)"

definition demo_options :: reporter_options where
  "demo_options = [''URL'' \<mapsto> JStr ''http://localhost:80'', ''apiKey'' \<mapsto> JStr ''key'',
                   ''prefix'' \<mapsto> JStr ''XPJ'']"

lemma demo_opt:
  "opt demo_options ''URL'' = JStr ''http://localhost:80''"
  "opt demo_options ''apiKey'' = JStr ''key''"
  "opt demo_options ''prefix'' = JStr ''XPJ''"
  "opt demo_options ''testplanid'' = JUndefined"
  "opt demo_options ''buildid'' = JUndefined"
  by (simp_all add: opt_def demo_options_def)

text \<open>The theorem of claim C6 at options with a prefix, and with one option removed.\<close>
theorem validateReporterOptions_raises_witness:
  "validateReporterOptions (Some demo_options) = Inr ()
   \<and> validateReporterOptions (Some (demo_options(''URL'' := None))) = Inl (MissingOption ''URL'')
   \<and> TestLinkReporter demo_url (Some (demo_options(''apiKey'' := None))) = Inl (MissingOption ''apiKey'')
   \<and> TestLinkReporter demo_url (Some (demo_options(''prefix'' := None))) = Inl EitherPlanOrPrefix"
proof -
  have "validateReporterOptions (Some demo_options) = Inr ()"
    using validateReporterOptions_raises [of demo_options demo_url] by (simp add: demo_opt)
  moreover have "validateReporterOptions (Some (demo_options(''URL'' := None))) = Inl (MissingOption ''URL'')"
    using validateReporterOptions_raises [of "demo_options(''URL'' := None)" demo_url]
    by (simp add: validateReporterOptions_def opt_def demo_options_def)
  moreover have "TestLinkReporter demo_url (Some (demo_options(''apiKey'' := None))) = Inl (MissingOption ''apiKey'')"
    using validateReporterOptions_raises [of "demo_options(''apiKey'' := None)" demo_url]
    by (simp add: validateReporterOptions_def opt_def demo_options_def)
  moreover have "TestLinkReporter demo_url (Some (demo_options(''prefix'' := None))) = Inl EitherPlanOrPrefix"
    using validateReporterOptions_raises [of "demo_options(''prefix'' := None)" demo_url]
    by (simp add: demo_options_def)
  ultimately show ?thesis by blast
qed

section \<open>The promise chain is linear and sequential\<close>

subsection \<open>Effects of the elementary updates\<close>

lemma set_pstate_fields [simp]:
  "promises (set_pstate i st s) = (promises s)[i := (promises s ! i)\<lparr> pstate := st \<rparr>]"
  "calls (set_pstate i st s) = calls s"
  "console_error (set_pstate i st s) = console_error s"
  "this_testplanid (set_pstate i st s) = this_testplanid s"
  "this_buildid (set_pstate i st s) = this_buildid s"
  "this_testproject (set_pstate i st s) = this_testproject s"
  "promiseChain (set_pstate i st s) = promiseChain s"
  "run_begin_armed (set_pstate i st s) = run_begin_armed s"
  "reporterOptions (set_pstate i st s) = reporterOptions s"
  by (simp_all add: set_pstate_def)

lemma issue_fields [simp]:
  "promises (issue i c s) = promises s"
  "calls (issue i c s) = calls s @ [(i, c)]"
  "console_error (issue i c s) = console_error s"
  "this_testplanid (issue i c s) = this_testplanid s"
  "this_buildid (issue i c s) = this_buildid s"
  "this_testproject (issue i c s) = this_testproject s"
  "promiseChain (issue i c s) = promiseChain s"
  "run_begin_armed (issue i c s) = run_begin_armed s"
  "reporterOptions (issue i c s) = reporterOptions s"
  by (simp_all add: issue_def)

lemma chain_then_catch_fields [simp]:
  "promises (chain_then_catch t s) =
     promises s @ [\<lparr> kind = Then (promiseChain s) t, pstate = Waiting \<rparr>,
                   \<lparr> kind = Catch (length (promises s)), pstate = Waiting \<rparr>]"
  "calls (chain_then_catch t s) = calls s"
  "console_error (chain_then_catch t s) = console_error s"
  "this_testplanid (chain_then_catch t s) = this_testplanid s"
  "this_buildid (chain_then_catch t s) = this_buildid s"
  "this_testproject (chain_then_catch t s) = this_testproject s"
  "promiseChain (chain_then_catch t s) = Suc (length (promises s))"
  "run_begin_armed (chain_then_catch t s) = run_begin_armed s"
  "reporterOptions (chain_then_catch t s) = reporterOptions s"
  by (simp_all add: chain_then_catch_def Let_def)

text \<open>A reaction or an answer changes at most the state of the one promise it names.\<close>

definition upd_at :: "nat \<Rightarrow> pstate \<Rightarrow> promise list \<Rightarrow> promise list" where
  "upd_at i st ps = ps[i := (ps ! i)\<lparr> pstate := st \<rparr>]"

lemma length_upd_at [simp]: "length (upd_at i st ps) = length ps"
  by (simp add: upd_at_def)

lemma kind_upd_at [simp]: "kind (upd_at i st ps ! j) = kind (ps ! j)"
proof (cases "i < length ps")
  case True
  then show ?thesis by (simp add: upd_at_def nth_list_update)
next
  case False
  then have "ps[i := (ps ! i)\<lparr> pstate := st \<rparr>] = ps" by (intro list_update_beyond) simp
  then show ?thesis by (simp add: upd_at_def)
qed

lemma pstate_upd_at [simp]:
  "j < length ps \<Longrightarrow> pstate (upd_at i st ps ! j) = (if j = i then st else pstate (ps ! j))"
  by (simp add: upd_at_def nth_list_update)

lemma start_task_promises:
  "\<exists>f. promises (start_task i t s) = upd_at i (Running f) (promises s)"
  by (cases t) (auto simp: start_task_def upd_at_def Let_def split: option.splits)

lemma resume_promises:
  "\<exists>st. st \<noteq> Waiting \<and> promises (resume i f r s) = upd_at i st (promises s)"
  by (cases f; cases r) (auto simp: resume_def upd_at_def split: list.splits)

lemma react_promises:
  "promises (react i s) = promises s \<or>
   (i < length (promises s) \<and> pstate (promises s ! i) = Waiting \<and>
    (\<exists>src. (kind (promises s ! i) = Catch src \<or> (\<exists>t. kind (promises s ! i) = Then src t)) \<and>
       src < length (promises s) \<and> (\<exists>x. pstate (promises s ! src) = Settled x)) \<and>
    (\<exists>st. st \<noteq> Waiting \<and> promises (react i s) = upd_at i st (promises s)))"
proof -
  have st: "\<exists>st. st \<noteq> Waiting \<and> promises (start_task i t s) = upd_at i st (promises s)" for t
    using start_task_promises [of i t s] by auto
  show ?thesis
    unfolding react_def using st
    by (auto simp: upd_at_def split: pkind.splits pstate.splits settled.splits)
qed

lemma respond_promises:
  "promises (respond i r s) = promises s \<or>
   (i < length (promises s) \<and> (\<exists>f. pstate (promises s ! i) = Running f) \<and>
    (\<exists>st. st \<noteq> Waiting \<and> promises (respond i r s) = upd_at i st (promises s)))"
  unfolding respond_def using resume_promises [of i _ r s]
  by (auto split: pstate.splits)


subsection \<open>The chain is linear and runs one promise at a time\<close>

definition chain_wf :: "reporter \<Rightarrow> bool" where
  "chain_wf s \<longleftrightarrow>
     Suc (promiseChain s) = length (promises s) \<and> even (length (promises s)) \<and>
     (\<forall>i < length (promises s).
        case kind (promises s ! i) of
          Root \<Rightarrow> i = 0
        | Then src t \<Rightarrow> i = Suc src \<and> even i
        | Catch src \<Rightarrow> i = Suc src \<and> odd i)"

definition sequential :: "promise list \<Rightarrow> bool" where
  "sequential ps \<longleftrightarrow>
     (\<forall>i j. i < j \<and> j < length ps \<and> pstate (ps ! j) \<noteq> Waiting \<longrightarrow> (\<exists>x. pstate (ps ! i) = Settled x))"

definition catch_ok :: "promise list \<Rightarrow> bool" where
  "catch_ok ps \<longleftrightarrow>
     (\<forall>i < length ps. \<forall>src. kind (ps ! i) = Catch src \<longrightarrow>
        pstate (ps ! i) = Waiting \<or> pstate (ps ! i) = Settled Fulfilled)"

lemma sequential_upd_at:
  assumes seq: "sequential ps" and i: "i < length ps"
    and unsettled: "\<forall>x. pstate (ps ! i) \<noteq> Settled x"
    and src: "pstate (ps ! i) = Waiting \<Longrightarrow> 0 < i \<and> (\<exists>x. pstate (ps ! (i - 1)) = Settled x)"
  shows "sequential (upd_at i st ps)"
  unfolding sequential_def
proof (intro allI impI)
  fix k j
  assume a: "k < j \<and> j < length (upd_at i st ps) \<and> pstate (upd_at i st ps ! j) \<noteq> Waiting"
  then have kj: "k < j" "j < length ps" "k < length ps" by auto
  have old: "\<exists>x. pstate (ps ! k) = Settled x" if "k < j'" "j' < length ps" "pstate (ps ! j') \<noteq> Waiting" for j'
    using seq that unfolding sequential_def by blast
  show "\<exists>x. pstate (upd_at i st ps ! k) = Settled x"
  proof (cases "j = i")
    case True
    have k_old: "\<exists>x. pstate (ps ! k) = Settled x"
    proof (cases "pstate (ps ! i) = Waiting")
      case False
      then show ?thesis using old [of i] kj True i by simp
    next
      case W: True
      then have p: "0 < i" "\<exists>x. pstate (ps ! (i - 1)) = Settled x" using src by auto
      show ?thesis
      proof (cases "k = i - 1")
        case True
        then show ?thesis using p by simp
      next
        case False
        then have "k < i - 1" using kj True by simp
        moreover have "pstate (ps ! (i - 1)) \<noteq> Waiting" using p by auto
        ultimately show ?thesis using old [of "i - 1"] i by simp
      qed
    qed
    then show ?thesis using kj True by simp
  next
    case False
    then have jw: "pstate (ps ! j) \<noteq> Waiting" using a kj by simp
    then have k_old: "\<exists>x. pstate (ps ! k) = Settled x" using old [of j] kj by simp
    moreover have "k \<noteq> i" using k_old unsettled by auto
    ultimately show ?thesis using kj by simp
  qed
qed

lemma sequential_append_waiting:
  assumes "sequential ps" "\<forall>p \<in> set qs. pstate p = Waiting"
  shows "sequential (ps @ qs)"
  unfolding sequential_def
proof (intro allI impI)
  fix i j
  assume a: "i < j \<and> j < length (ps @ qs) \<and> pstate ((ps @ qs) ! j) \<noteq> Waiting"
  have "j < length ps"
  proof (rule ccontr)
    assume "\<not> j < length ps"
    then have "(ps @ qs) ! j = qs ! (j - length ps)" "j - length ps < length qs"
      using a by (auto simp: nth_append)
    then have "(ps @ qs) ! j \<in> set qs" by simp
    then show False using assms(2) a by auto
  qed
  then show "\<exists>x. pstate ((ps @ qs) ! i) = Settled x"
    using a assms(1) unfolding sequential_def by (auto simp: nth_append)
qed


lemma react_cases [case_names idle start skip pass log]:
  assumes "react i s = s \<Longrightarrow> P"
    and "\<And>src t. \<lbrakk>i < length (promises s); pstate (promises s ! i) = Waiting;
            kind (promises s ! i) = Then src t; src < length (promises s);
            pstate (promises s ! src) = Settled Fulfilled; react i s = start_task i t s\<rbrakk> \<Longrightarrow> P"
    and "\<And>src t e. \<lbrakk>i < length (promises s); pstate (promises s ! i) = Waiting;
            kind (promises s ! i) = Then src t; src < length (promises s);
            pstate (promises s ! src) = Settled (Rejected e);
            react i s = set_pstate i (Settled (Rejected e)) s\<rbrakk> \<Longrightarrow> P"
    and "\<And>src. \<lbrakk>i < length (promises s); pstate (promises s ! i) = Waiting;
            kind (promises s ! i) = Catch src; src < length (promises s);
            pstate (promises s ! src) = Settled Fulfilled;
            react i s = set_pstate i (Settled Fulfilled) s\<rbrakk> \<Longrightarrow> P"
    and "\<And>src e. \<lbrakk>i < length (promises s); pstate (promises s ! i) = Waiting;
            kind (promises s ! i) = Catch src; src < length (promises s);
            pstate (promises s ! src) = Settled (Rejected e);
            react i s = set_pstate i (Settled Fulfilled)
                          (s\<lparr> console_error := console_error s @ [e] \<rparr>)\<rbrakk> \<Longrightarrow> P"
  shows P
proof (cases "i < length (promises s) \<and> pstate (promises s ! i) = Waiting")
  case False
  then have "react i s = s" by (auto simp: react_def)
  then show ?thesis by (rule assms(1))
next
  case en: True
  show ?thesis
  proof (cases "kind (promises s ! i)")
    case Root
    then have "react i s = s" using en by (simp add: react_def)
    then show ?thesis by (rule assms(1))
  next
    case (Then src t)
    show ?thesis
    proof (cases "src < length (promises s)")
      case False
      then have "react i s = s" using en Then by (simp add: react_def)
      then show ?thesis by (rule assms(1))
    next
      case True
      show ?thesis
      proof (cases "pstate (promises s ! src)")
        case Waiting
        then have "react i s = s" using en Then True by (simp add: react_def)
        then show ?thesis by (rule assms(1))
      next
        case (Running f)
        then have "react i s = s" using en Then True by (simp add: react_def)
        then show ?thesis by (rule assms(1))
      next
        case (Settled x)
        show ?thesis
        proof (cases x)
          case Fulfilled
          then have "react i s = start_task i t s" using en Then True Settled by (simp add: react_def)
          then show ?thesis using assms(2) en Then True Settled Fulfilled by blast
        next
          case (Rejected e)
          then have "react i s = set_pstate i (Settled (Rejected e)) s"
            using en Then True Settled by (simp add: react_def)
          then show ?thesis using assms(3) en Then True Settled Rejected by blast
        qed
      qed
    qed
  next
    case (Catch src)
    show ?thesis
    proof (cases "src < length (promises s)")
      case False
      then have "react i s = s" using en Catch by (simp add: react_def)
      then show ?thesis by (rule assms(1))
    next
      case True
      show ?thesis
      proof (cases "pstate (promises s ! src)")
        case Waiting
        then have "react i s = s" using en Catch True by (simp add: react_def)
        then show ?thesis by (rule assms(1))
      next
        case (Running f)
        then have "react i s = s" using en Catch True by (simp add: react_def)
        then show ?thesis by (rule assms(1))
      next
        case (Settled x)
        show ?thesis
        proof (cases x)
          case Fulfilled
          then have "react i s = set_pstate i (Settled Fulfilled) s"
            using en Catch True Settled by (simp add: react_def)
          then show ?thesis using assms(4) en Catch True Settled Fulfilled by blast
        next
          case (Rejected e)
          then have "react i s = set_pstate i (Settled Fulfilled)
                          (s\<lparr> console_error := console_error s @ [e] \<rparr>)"
            using en Catch True Settled by (simp add: react_def)
          then show ?thesis using assms(5) en Catch True Settled Rejected by blast
        qed
      qed
    qed
  qed
qed

lemma respond_cases [case_names idle resume]:
  assumes "respond i r s = s \<Longrightarrow> P"
    and "\<And>f. \<lbrakk>i < length (promises s); pstate (promises s ! i) = Running f;
            respond i r s = resume i f r s\<rbrakk> \<Longrightarrow> P"
  shows P
proof (cases "i < length (promises s)")
  case False
  then have "respond i r s = s" by (simp add: respond_def)
  then show ?thesis by (rule assms(1))
next
  case True
  show ?thesis
  proof (cases "pstate (promises s ! i)")
    case Waiting
    then have "respond i r s = s" using True by (simp add: respond_def)
    then show ?thesis by (rule assms(1))
  next
    case (Running f)
    then have "respond i r s = resume i f r s" using True by (simp add: respond_def)
    then show ?thesis using assms(2) True Running by blast
  next
    case (Settled x)
    then have "respond i r s = s" using True by (simp add: respond_def)
    then show ?thesis by (rule assms(1))
  qed
qed

lemma promises_set_pstate: "promises (set_pstate i st s) = upd_at i st (promises s)"
  by (simp add: upd_at_def)

lemma resume_frame [simp]:
  "promiseChain (resume i f r s) = promiseChain s"
  "run_begin_armed (resume i f r s) = run_begin_armed s"
  "reporterOptions (resume i f r s) = reporterOptions s"
  by (cases f; cases r; simp add: resume_def split: list.splits)+

lemma start_task_frame [simp]:
  "promiseChain (start_task i t s) = promiseChain s"
  "run_begin_armed (start_task i t s) = run_begin_armed s"
  "reporterOptions (start_task i t s) = reporterOptions s"
  "this_testplanid (start_task i t s) = this_testplanid s"
  "this_buildid (start_task i t s) = this_buildid s"
  "this_testproject (start_task i t s) = this_testproject s"
  "console_error (start_task i t s) = console_error s"
  by (cases t; simp add: start_task_def Let_def split: option.splits)+


definition chain_inv :: "reporter \<Rightarrow> bool" where
  "chain_inv s \<longleftrightarrow> chain_wf s \<and> sequential (promises s) \<and> catch_ok (promises s)
             \<and> pstate (promises s ! 0) \<noteq> Waiting"

lemma chain_wf_upd:
  assumes "chain_wf s" "promises s' = upd_at i st (promises s)" "promiseChain s' = promiseChain s"
  shows "chain_wf s'"
  using assms unfolding chain_wf_def by simp

lemma chain_wf_length:
  assumes "chain_wf s"
  shows "2 \<le> length (promises s)"
proof -
  have "Suc (promiseChain s) = length (promises s)" "even (length (promises s))"
    using assms unfolding chain_wf_def by auto
  then show ?thesis by (elim evenE) arith
qed

lemma then_source:
  assumes "chain_wf s" "i < length (promises s)" "kind (promises s ! i) = Then src t"
  shows "i = Suc src \<and> (\<exists>src'. kind (promises s ! src) = Catch src')"
proof -
  have i: "i = Suc src" "even i" using assms unfolding chain_wf_def by (auto split: pkind.splits)
  then have src: "src < length (promises s)" "odd src" using assms(2) by auto
  have "case kind (promises s ! src) of Root \<Rightarrow> src = 0
      | Then a t \<Rightarrow> src = Suc a \<and> even src | Catch a \<Rightarrow> src = Suc a \<and> odd src"
    using assms(1) src(1) unfolding chain_wf_def by blast
  then have "\<exists>src'. kind (promises s ! src) = Catch src'"
    using src(2) by (cases "kind (promises s ! src)") auto
  then show ?thesis using i by simp
qed

lemma catch_source:
  assumes "chain_wf s" "i < length (promises s)" "kind (promises s ! i) = Catch src"
  shows "i = Suc src"
  using assms unfolding chain_wf_def by (auto split: pkind.splits)

lemma catch_ok_upd_at:
  assumes "catch_ok ps" "\<forall>src. kind (ps ! i) = Catch src \<longrightarrow> st = Waiting \<or> st = Settled Fulfilled"
  shows "catch_ok (upd_at i st ps)"
  using assms unfolding catch_ok_def by auto

lemma catch_okD:
  "catch_ok ps \<Longrightarrow> i < length ps \<Longrightarrow> kind (ps ! i) = Catch src
     \<Longrightarrow> pstate (ps ! i) = Waiting \<or> pstate (ps ! i) = Settled Fulfilled"
  unfolding catch_ok_def by blast

text \<open>In a well-formed chain the source of a \<open>then\<close> never rejects.\<close>

lemma then_source_fulfilled:
  assumes "chain_inv s" "i < length (promises s)" "kind (promises s ! i) = Then src t"
    "pstate (promises s ! src) = Settled x"
  shows "x = Fulfilled"
proof -
  obtain src' where src: "i = Suc src" "kind (promises s ! src) = Catch src'"
    using then_source assms unfolding chain_inv_def by blast
  then have "src < length (promises s)" using assms(2) by simp
  then show ?thesis using catch_okD [of "promises s" src src'] src assms unfolding chain_inv_def by auto
qed

lemma inv_upd:
  assumes chain_inv: "chain_inv s" and p: "promises s' = upd_at i st (promises s)"
    and c: "promiseChain s' = promiseChain s" and i: "i < length (promises s)"
    and st: "st \<noteq> Waiting"
    and unsettled: "\<forall>x. pstate (promises s ! i) \<noteq> Settled x"
    and src: "pstate (promises s ! i) = Waiting \<Longrightarrow>
                0 < i \<and> (\<exists>x. pstate (promises s ! (i - 1)) = Settled x)"
    and ck: "\<forall>src. kind (promises s ! i) = Catch src \<longrightarrow> st = Settled Fulfilled"
  shows "chain_inv s'"
proof -
  have "chain_wf s'" using chain_inv p c chain_wf_upd unfolding chain_inv_def by blast
  moreover have "sequential (promises s')"
    using chain_inv i unsettled src sequential_upd_at unfolding chain_inv_def p by blast
  moreover have "catch_ok (promises s')"
    using chain_inv ck catch_ok_upd_at unfolding chain_inv_def p by blast
  moreover have "0 < length (promises s)" using i by auto
  then have "pstate (promises s' ! 0) \<noteq> Waiting"
    using chain_inv st unfolding chain_inv_def p by (simp del: length_greater_0_conv)
  ultimately show ?thesis unfolding chain_inv_def by blast
qed

lemma inv_fields:
  assumes "chain_inv s" "promises s' = promises s" "promiseChain s' = promiseChain s"
  shows "chain_inv s'"
  using assms unfolding chain_inv_def chain_wf_def by simp

lemma inv_react: "chain_inv s \<Longrightarrow> chain_inv (react i s)"
proof (cases i s rule: react_cases)
  case idle
  assume "chain_inv s" then show ?thesis using idle by simp
next
  case (start src t)
  assume chain_inv: "chain_inv s"
  obtain f where f: "promises (start_task i t s) = upd_at i (Running f) (promises s)"
    using start_task_promises by blast
  have "i = Suc src" using then_source chain_inv start unfolding chain_inv_def by blast
  then show ?thesis unfolding start(6) using chain_inv f start
    by (intro inv_upd [OF chain_inv f]) auto
next
  case (skip src t e)
  assume chain_inv: "chain_inv s"
  have "i = Suc src" using then_source chain_inv skip unfolding chain_inv_def by blast
  then show ?thesis unfolding skip(6) using chain_inv skip
    by (intro inv_upd [OF chain_inv promises_set_pstate]) auto
next
  case (pass src)
  assume chain_inv: "chain_inv s"
  have "i = Suc src" using catch_source chain_inv pass unfolding chain_inv_def by blast
  then show ?thesis unfolding pass(6) using chain_inv pass
    by (intro inv_upd [OF chain_inv promises_set_pstate]) auto
next
  case (log src e)
  assume chain_inv: "chain_inv s"
  have "i = Suc src" using catch_source chain_inv log unfolding chain_inv_def by blast
  then show ?thesis unfolding log(6) using chain_inv log
    by (intro inv_upd [OF chain_inv]) (auto simp: upd_at_def)
qed

lemma inv_respond: "chain_inv s \<Longrightarrow> chain_inv (respond i r s)"
proof (cases i r s rule: respond_cases)
  case idle
  assume "chain_inv s" then show ?thesis using idle by simp
next
  case (resume f)
  assume chain_inv: "chain_inv s"
  obtain st where st: "st \<noteq> Waiting" "promises (resume i f r s) = upd_at i st (promises s)"
    using resume_promises by blast
  have "\<forall>src. kind (promises s ! i) \<noteq> Catch src"
    using chain_inv resume catch_okD [of "promises s" i] unfolding chain_inv_def by auto
  then show ?thesis unfolding resume(3) using chain_inv st resume
    by (intro inv_upd [OF chain_inv st(2)]) auto
qed

lemma inv_chain_then_catch: "chain_inv s \<Longrightarrow> chain_inv (chain_then_catch t s)"
proof -
  assume chain_inv: "chain_inv s"
  let ?qs = "[\<lparr> kind = Then (promiseChain s) t, pstate = Waiting \<rparr>,
              \<lparr> kind = Catch (length (promises s)), pstate = Waiting \<rparr>]"
  have len: "Suc (promiseChain s) = length (promises s)" "even (length (promises s))"
    "0 < length (promises s)"
    using chain_inv unfolding chain_inv_def chain_wf_def by auto
  have "chain_wf (chain_then_catch t s)"
    unfolding chain_wf_def
  proof (intro conjI allI impI)
    fix i assume "i < length (promises (chain_then_catch t s))"
    then consider "i < length (promises s)" | "i = length (promises s)" | "i = Suc (length (promises s))"
      by (auto simp: less_Suc_eq)
    then show "case kind (promises (chain_then_catch t s) ! i) of Root \<Rightarrow> i = 0
        | Then src t \<Rightarrow> i = Suc src \<and> even i | Catch src \<Rightarrow> i = Suc src \<and> odd i"
    proof cases
      case 1
      then show ?thesis using chain_inv unfolding chain_inv_def chain_wf_def by (simp add: nth_append)
    next
      case 2
      then show ?thesis using len by (simp add: nth_append)
    next
      case 3
      then show ?thesis using len by (simp add: nth_append)
    qed
  qed (use len in auto)
  moreover have "sequential (promises (chain_then_catch t s))"
    using chain_inv unfolding chain_inv_def by (simp del: append.simps add: sequential_append_waiting)
  moreover have "catch_ok (promises (chain_then_catch t s))"
    using chain_inv unfolding chain_inv_def catch_ok_def
    by (auto simp: nth_append less_Suc_eq)
  moreover have "pstate (promises (chain_then_catch t s) ! 0) \<noteq> Waiting"
    using chain_inv len unfolding chain_inv_def by (simp add: nth_append)
  ultimately show ?thesis unfolding chain_inv_def by blast
qed

lemma inv_publish: "chain_inv s \<Longrightarrow> chain_inv (publishTestResults title g s)"
proof -
  have "chain_inv s \<Longrightarrow> chain_inv (foldl (\<lambda>s caseId. chain_then_catch (Publish caseId g) s) s ids)" for ids
    by (induction ids arbitrary: s) (auto simp: inv_chain_then_catch)
  then show "chain_inv s \<Longrightarrow> chain_inv (publishTestResults title g s)"
    unfolding publishTestResults_def by blast
qed

lemma inv_on_event: "chain_inv s \<Longrightarrow> chain_inv (on_event ev s)"
proof (cases ev)
  case EVENT_RUN_BEGIN
  assume chain_inv: "chain_inv s"
  have a: "chain_inv (s\<lparr> run_begin_armed := False \<rparr>)" using chain_inv by (rule inv_fields) auto
  then have "chain_inv (createTestPlan (reporterOptions s) (s\<lparr> run_begin_armed := False \<rparr>))"
    unfolding createTestPlan_def
    by (auto intro: inv_chain_then_catch inv_fields [OF a])
  then show ?thesis using chain_inv EVENT_RUN_BEGIN by (simp add: on_event_def)
qed (auto simp: on_event_def inv_publish)

lemma inv_step: "chain_inv s \<Longrightarrow> chain_inv (step a s)"
  by (cases a) (auto simp: step_def inv_on_event inv_react inv_respond)

lemma inv_run: "chain_inv s \<Longrightarrow> chain_inv (run acts s)"
  by (induction acts arbitrary: s) (auto simp: inv_step)

lemma inv_init: "TestLinkReporter parse_url options = Inr s \<Longrightarrow> chain_inv s"
  unfolding TestLinkReporter_def chain_inv_def chain_wf_def sequential_def catch_ok_def
  by (auto split: sum.splits option.splits simp: less_Suc_eq)

subsection \<open>Frames, calls and logged rejections\<close>

fun frame_ok :: "pkind \<Rightarrow> frame \<Rightarrow> bool" where
  "frame_ok Root f = (f = AwaitCheckDevKey)"
| "frame_ok (Then src (Publish caseId g)) f =
     (case f of AwaitAddTestCase options \<Rightarrow> testcaseexternalid options = caseId
      | AwaitReport \<Rightarrow> True | _ \<Rightarrow> False)"
| "frame_ok (Then src (Provision ro)) f =
     (f = AwaitCreateTestPlan ro \<or> f = AwaitCreateBuild ro \<or> f = AwaitGetProjects ro)"
| "frame_ok (Catch src) f = False"

fun call_of :: "pkind \<Rightarrow> rpc_call \<Rightarrow> bool" where
  "call_of Root c = (c = CheckDevKey)"
| "call_of (Then src (Publish caseId g)) c =
     (case c of AddTestCaseToTestPlan pr pl cid v \<Rightarrow> cid = caseId \<and> v = 1
      | ReportTCResult options \<Rightarrow> testcaseexternalid options = caseId | _ \<Rightarrow> False)"
| "call_of (Then src (Provision ro)) c =
     (case c of CreateTestPlan p \<Rightarrow> p = opt ro ''prefix'' | CreateBuild pl \<Rightarrow> True
      | GetProjects \<Rightarrow> True | _ \<Rightarrow> False)"
| "call_of (Catch src) c = False"

definition frames_ok :: "promise list \<Rightarrow> bool" where
  "frames_ok ps \<longleftrightarrow> (\<forall>i < length ps. \<forall>f. pstate (ps ! i) = Running f \<longrightarrow> frame_ok (kind (ps ! i)) f)"

definition calls_ok :: "reporter \<Rightarrow> bool" where
  "calls_ok s \<longleftrightarrow>
     sorted (map fst (calls s)) \<and>
     (\<forall>i c. (i, c) \<in> set (calls s) \<longrightarrow>
        i < length (promises s) \<and> pstate (promises s ! i) \<noteq> Waiting \<and>
        call_of (kind (promises s ! i)) c) \<and>
     (\<forall>i < length (promises s). pstate (promises s ! i) \<noteq> Waiting \<longrightarrow>
        (\<exists>src. kind (promises s ! i) = Catch src) \<or> i \<in> fst ` set (calls s))"

definition logged :: "reporter \<Rightarrow> bool" where
  "logged s \<longleftrightarrow>
     (\<forall>i e. Suc i < length (promises s) \<and> pstate (promises s ! i) = Settled (Rejected e) \<and>
        (\<exists>x. pstate (promises s ! Suc i) = Settled x) \<longrightarrow> e \<in> set (console_error s))"

definition reporter_inv :: "reporter \<Rightarrow> bool" where
  "reporter_inv s \<longleftrightarrow> chain_inv s \<and> frames_ok (promises s) \<and> calls_ok s \<and> logged s"

lemma apply_gen_caseId [simp]: "testcaseexternalid (apply_gen s g c) = c"
  by (cases g) (simp_all add: apply_gen_def suiteOptions_def tcOptions_def)

text \<open>What a started or resumed async function does to its promise and to the client.\<close>

definition start_frame :: "reporter \<Rightarrow> task \<Rightarrow> frame" where
  "start_frame s t =
     (case t of
        Publish caseId g \<Rightarrow>
          (case this_testproject s of
             Some p \<Rightarrow> AwaitAddTestCase (apply_gen s g caseId)
           | None \<Rightarrow> AwaitReport)
      | Provision ro \<Rightarrow> AwaitCreateTestPlan ro)"

definition start_call :: "reporter \<Rightarrow> task \<Rightarrow> rpc_call" where
  "start_call s t =
     (case t of
        Publish caseId g \<Rightarrow>
          (case this_testproject s of
             Some p \<Rightarrow> AddTestCaseToTestPlan (obj_id p) (this_testplanid s) caseId 1
           | None \<Rightarrow> ReportTCResult (apply_gen s g caseId))
      | Provision ro \<Rightarrow> CreateTestPlan (opt ro ''prefix''))"

fun resume_pstate :: "frame \<Rightarrow> response \<Rightarrow> pstate" where
  "resume_pstate AwaitCheckDevKey r = Settled (outcome r)"
| "resume_pstate AwaitReport r = Settled (outcome r)"
| "resume_pstate f (Reject e) = Settled (Rejected e)"
| "resume_pstate (AwaitCreateTestPlan ro) (Resolve []) = Settled (Rejected TypeError)"
| "resume_pstate (AwaitCreateTestPlan ro) (Resolve (x # xs)) = Running (AwaitCreateBuild ro)"
| "resume_pstate (AwaitCreateBuild ro) (Resolve []) = Settled (Rejected TypeError)"
| "resume_pstate (AwaitCreateBuild ro) (Resolve (x # xs)) = Running (AwaitGetProjects ro)"
| "resume_pstate (AwaitGetProjects ro) (Resolve xs) = Settled Fulfilled"
| "resume_pstate (AwaitAddTestCase options) (Resolve xs) = Running AwaitReport"

fun resume_calls :: "frame \<Rightarrow> response \<Rightarrow> rpc_call list" where
  "resume_calls (AwaitCreateTestPlan ro) (Resolve (x # xs)) = [CreateBuild (obj_id x)]"
| "resume_calls (AwaitCreateBuild ro) (Resolve (x # xs)) = [GetProjects]"
| "resume_calls (AwaitAddTestCase options) (Resolve xs) = [ReportTCResult options]"
| "resume_calls f r = []"

lemma start_task_effect:
  "promises (start_task i t s) = upd_at i (Running (start_frame s t)) (promises s)"
  "calls (start_task i t s) = calls s @ [(i, start_call s t)]"
  by (cases t; cases "this_testproject s";
      simp add: start_task_def start_frame_def start_call_def Let_def upd_at_def)+

lemma start_frame_ok: "frame_ok (Then src t) (start_frame s t)"
  by (cases t; cases "this_testproject s"; simp add: start_frame_def)

lemma start_call_of: "call_of (Then src t) (start_call s t)"
  by (cases t; cases "this_testproject s"; simp add: start_call_def)

lemma resume_effect:
  "promises (resume i f r s) = upd_at i (resume_pstate f r) (promises s)"
  "calls (resume i f r s) = calls s @ map (Pair i) (resume_calls f r)"
  "console_error (resume i f r s) = console_error s"
  by (cases f; cases r; simp add: resume_def upd_at_def outcome_def split: list.splits)+

lemma resume_pstate_not_Waiting [simp]: "resume_pstate f r \<noteq> Waiting"
  by (cases "(f, r)" rule: resume_pstate.cases) simp_all

lemma resume_frame_ok:
  "frame_ok k f \<Longrightarrow> resume_pstate f r = Running f' \<Longrightarrow> frame_ok k f'"
  by (cases "(f, r)" rule: resume_pstate.cases; cases "(k, f)" rule: frame_ok.cases) auto

lemma resume_call_of: "frame_ok k f \<Longrightarrow> c \<in> set (resume_calls f r) \<Longrightarrow> call_of k c"
  by (cases "(f, r)" rule: resume_calls.cases; cases "(k, f)" rule: frame_ok.cases) auto


lemma sequentialD:
  "sequential ps \<Longrightarrow> i < j \<Longrightarrow> j < length ps \<Longrightarrow> pstate (ps ! j) \<noteq> Waiting
     \<Longrightarrow> \<exists>x. pstate (ps ! i) = Settled x"
  unfolding sequential_def by blast

lemma frames_ok_upd_at:
  assumes "frames_ok ps" "\<forall>f. st = Running f \<longrightarrow> frame_ok (kind (ps ! i)) f"
  shows "frames_ok (upd_at i st ps)"
  using assms unfolding frames_ok_def by auto

lemma calls_ok_upd:
  assumes ok: "calls_ok s" and seq: "sequential (promises s)"
    and p: "promises s' = upd_at i st (promises s)" and i: "i < length (promises s)"
    and st: "st \<noteq> Waiting" and unsettled: "\<forall>x. pstate (promises s ! i) \<noteq> Settled x"
    and cl: "calls s' = calls s @ map (Pair i) cs"
    and co: "\<forall>c \<in> set cs. call_of (kind (promises s ! i)) c"
    and first: "pstate (promises s ! i) = Waiting \<Longrightarrow>
                  (\<exists>src. kind (promises s ! i) = Catch src) \<or> cs \<noteq> []"
  shows "calls_ok s'"
proof -
  have old: "j < length (promises s) \<and> pstate (promises s ! j) \<noteq> Waiting \<and>
      call_of (kind (promises s ! j)) c" if "(j, c) \<in> set (calls s)" for j c
    using ok that unfolding calls_ok_def by blast
  have le: "j \<le> i" if "(j, c) \<in> set (calls s)" for j c
  proof (rule ccontr)
    assume "\<not> j \<le> i"
    then have "i < j" by simp
    then have "\<exists>x. pstate (promises s ! i) = Settled x"
      using sequentialD [OF seq, of i j] old [OF that] by blast
    then show False using unsettled by blast
  qed
  have ys: "map fst (map (Pair i) cs) = replicate (length cs) i"
    by (simp add: comp_def map_replicate_const)
  have "\<forall>x \<in> set (map fst (calls s)). x \<le> i" using le by auto
  moreover have "sorted (map fst (calls s))" using ok unfolding calls_ok_def by blast
  ultimately have "sorted (map fst (calls s) @ replicate (length cs) i)"
    by (simp add: sorted_append)
  then have 1: "sorted (map fst (calls s'))" unfolding cl using ys by simp
  have 2: "j < length (promises s') \<and> pstate (promises s' ! j) \<noteq> Waiting \<and>
      call_of (kind (promises s' ! j)) c" if "(j, c) \<in> set (calls s')" for j c
  proof (cases "(j, c) \<in> set (calls s)")
    case True
    then show ?thesis using old [OF True] st unfolding p by simp
  next
    case False
    then have "j = i" "c \<in> set cs" using that unfolding cl by auto
    then show ?thesis using i st co unfolding p by simp
  qed
  have 3: "(\<exists>src. kind (promises s' ! j) = Catch src) \<or> j \<in> fst ` set (calls s')"
    if "j < length (promises s')" "pstate (promises s' ! j) \<noteq> Waiting" for j
  proof (cases "pstate (promises s ! j) = Waiting")
    case False
    then have "(\<exists>src. kind (promises s ! j) = Catch src) \<or> j \<in> fst ` set (calls s)"
      using ok that(1) unfolding calls_ok_def p by simp
    then show ?thesis unfolding p cl by auto
  next
    case True
    then have ji: "j = i" using that unfolding p by (auto split: if_splits)
    then consider "\<exists>src. kind (promises s ! i) = Catch src" | "cs \<noteq> []"
      using first True by blast
    then show ?thesis
    proof cases
      case 1
      then show ?thesis unfolding p ji by simp
    next
      case 2
      then obtain c where "c \<in> set cs" by (cases cs) auto
      then have "(i, c) \<in> set (calls s')" unfolding cl by auto
      then show ?thesis unfolding ji by force
    qed
  qed
  show ?thesis unfolding calls_ok_def using 1 2 3 by blast
qed

lemma logged_upd:
  assumes lg: "logged s" and seq: "sequential (promises s)" and ck: "catch_ok (promises s)"
    and wf: "chain_wf s"
    and p: "promises s' = upd_at i st (promises s)" and i: "i < length (promises s)"
    and unsettled: "\<forall>x. pstate (promises s ! i) \<noteq> Settled x"
    and sub: "set (console_error s) \<subseteq> set (console_error s')"
    and new: "\<forall>src e. kind (promises s ! i) = Catch src \<and>
                pstate (promises s ! src) = Settled (Rejected e) \<longrightarrow> e \<in> set (console_error s')"
  shows "logged s'"
  unfolding logged_def
proof (intro allI impI)
  fix j e
  assume a: "Suc j < length (promises s') \<and> pstate (promises s' ! j) = Settled (Rejected e) \<and>
      (\<exists>x. pstate (promises s' ! Suc j) = Settled x)"
  then have len: "Suc j < length (promises s)" "j < length (promises s)" unfolding p by auto
  show "e \<in> set (console_error s')"
  proof (cases "j = i")
    case True
    then have "\<exists>x. pstate (promises s ! Suc j) = Settled x" using a len unfolding p by simp
    then have "\<exists>x. pstate (promises s ! j) = Settled x"
      using sequentialD [OF seq, of j "Suc j"] len by auto
    then show ?thesis using unsettled True by blast
  next
    case ji: False
    then have rej: "pstate (promises s ! j) = Settled (Rejected e)" using a len unfolding p by simp
    show ?thesis
    proof (cases "Suc j = i")
      case False
      then have "\<exists>x. pstate (promises s ! Suc j) = Settled x" using a len unfolding p by simp
      then have "e \<in> set (console_error s)" using lg rej len unfolding logged_def by blast
      then show ?thesis using sub by blast
    next
      case True
      have "case kind (promises s ! i) of Root \<Rightarrow> i = 0
          | Then src t \<Rightarrow> i = Suc src \<and> even i | Catch src \<Rightarrow> i = Suc src \<and> odd i"
        using wf i unfolding chain_wf_def by blast
      then consider (th) t where "kind (promises s ! i) = Then j t"
        | (ca) "kind (promises s ! i) = Catch j"
        using True by (cases "kind (promises s ! i)") auto
      then show ?thesis
      proof cases
        case th
        then obtain src' where "kind (promises s ! j) = Catch src'"
          using then_source [OF wf i th] by blast
        then show ?thesis using catch_okD [OF ck len(2)] rej by auto
      next
        case ca
        then show ?thesis using new rej by blast
      qed
    qed
  qed
qed

lemma reporter_inv_upd:
  assumes inv: "reporter_inv s" and p: "promises s' = upd_at i st (promises s)"
    and c: "promiseChain s' = promiseChain s" and i: "i < length (promises s)"
    and st: "st \<noteq> Waiting"
    and unsettled: "\<forall>x. pstate (promises s ! i) \<noteq> Settled x"
    and src: "pstate (promises s ! i) = Waiting \<Longrightarrow>
                0 < i \<and> (\<exists>x. pstate (promises s ! (i - 1)) = Settled x)"
    and ck: "\<forall>src. kind (promises s ! i) = Catch src \<longrightarrow> st = Settled Fulfilled"
    and fr: "\<forall>f. st = Running f \<longrightarrow> frame_ok (kind (promises s ! i)) f"
    and cl: "calls s' = calls s @ map (Pair i) cs"
    and co: "\<forall>c \<in> set cs. call_of (kind (promises s ! i)) c"
    and first: "pstate (promises s ! i) = Waiting \<Longrightarrow>
                  (\<exists>src. kind (promises s ! i) = Catch src) \<or> cs \<noteq> []"
    and sub: "set (console_error s) \<subseteq> set (console_error s')"
    and new: "\<forall>src e. kind (promises s ! i) = Catch src \<and>
                pstate (promises s ! src) = Settled (Rejected e) \<longrightarrow> e \<in> set (console_error s')"
  shows "reporter_inv s'"
proof -
  have ci: "chain_inv s" using inv unfolding reporter_inv_def by blast
  have "chain_inv s'" using inv_upd [OF ci p c i st unsettled src ck] by blast
  moreover have "frames_ok (promises s')"
    using inv fr frames_ok_upd_at unfolding reporter_inv_def p by blast
  moreover have "calls_ok s'"
  proof (rule calls_ok_upd [OF _ _ p i st unsettled cl co first])
    show "calls_ok s" using inv unfolding reporter_inv_def by blast
    show "sequential (promises s)" using ci unfolding chain_inv_def by blast
  qed
  moreover have "logged s'"
  proof (rule logged_upd [OF _ _ _ _ p i unsettled sub new])
    show "logged s" using inv unfolding reporter_inv_def by blast
    show "sequential (promises s)" "catch_ok (promises s)" "chain_wf s"
      using ci unfolding chain_inv_def by blast+
  qed
  ultimately show ?thesis unfolding reporter_inv_def by blast
qed


lemma reporter_inv_chain: "reporter_inv s \<Longrightarrow> chain_inv s"
  unfolding reporter_inv_def by blast

lemma reporter_inv_react:
  assumes inv: "reporter_inv s"
  shows "reporter_inv (react i s)"
proof (cases i s rule: react_cases)
  case idle
  then show ?thesis using inv by simp
next
  case (start src t)
  have wf: "chain_wf s" using inv unfolding reporter_inv_def chain_inv_def by blast
  have isrc: "i = Suc src" using then_source [OF wf start(1,3)] by blast
  show ?thesis unfolding start(6)
  proof (rule reporter_inv_upd [OF inv start_task_effect(1) _ start(1), where cs = "[start_call s t]"])
    show "calls (start_task i t s) = calls s @ map (Pair i) [start_call s t]"
      by (simp add: start_task_effect(2))
    show "\<forall>f. Running (start_frame s t) = Running f \<longrightarrow> frame_ok (kind (promises s ! i)) f"
      using start_frame_ok [of src t s] start(3) by simp
    show "\<forall>c\<in>set [start_call s t]. call_of (kind (promises s ! i)) c"
      using start_call_of [of src t s] start(3) by simp
    show "pstate (promises s ! i) = Waiting \<Longrightarrow>
        0 < i \<and> (\<exists>x. pstate (promises s ! (i - 1)) = Settled x)"
      using isrc start(5) by simp
  qed (use start in auto)
next
  case (skip src t e)
  have "Rejected e = Fulfilled"
    using then_source_fulfilled [OF reporter_inv_chain [OF inv] skip(1,3,5)] .
  then show ?thesis by simp
next
  case (pass src)
  have wf: "chain_wf s" using inv unfolding reporter_inv_def chain_inv_def by blast
  have isrc: "i = Suc src" using catch_source [OF wf pass(1,3)] .
  show ?thesis unfolding pass(6)
  proof (rule reporter_inv_upd [OF inv promises_set_pstate _ pass(1), where cs = "[]"])
    show "pstate (promises s ! i) = Waiting \<Longrightarrow>
        0 < i \<and> (\<exists>x. pstate (promises s ! (i - 1)) = Settled x)"
      using isrc pass(5) by simp
  qed (use pass in auto)
next
  case (log src e)
  have wf: "chain_wf s" using inv unfolding reporter_inv_def chain_inv_def by blast
  have isrc: "i = Suc src" using catch_source [OF wf log(1,3)] .
  show ?thesis unfolding log(6)
  proof (rule reporter_inv_upd [OF inv _ _ log(1), where cs = "[]" and st = "Settled Fulfilled"])
    show "pstate (promises s ! i) = Waiting \<Longrightarrow>
        0 < i \<and> (\<exists>x. pstate (promises s ! (i - 1)) = Settled x)"
      using isrc log(5) by simp
  qed (use log in \<open>auto simp: upd_at_def\<close>)
qed

lemma reporter_inv_respond:
  assumes inv: "reporter_inv s"
  shows "reporter_inv (respond i r s)"
proof (cases i r s rule: respond_cases)
  case idle
  then show ?thesis using inv by simp
next
  case (resume f)
  have fo: "frame_ok (kind (promises s ! i)) f"
    using inv resume(1,2) unfolding reporter_inv_def frames_ok_def by blast
  then have nc: "\<forall>src. kind (promises s ! i) \<noteq> Catch src" by auto
  show ?thesis unfolding resume(3)
  proof (rule reporter_inv_upd [OF inv resume_effect(1) _ resume(1), where cs = "resume_calls f r"])
    show "calls (resume i f r s) = calls s @ map (Pair i) (resume_calls f r)"
      by (rule resume_effect(2))
    show "\<forall>f'. resume_pstate f r = Running f' \<longrightarrow> frame_ok (kind (promises s ! i)) f'"
      using resume_frame_ok [OF fo] by blast
    show "\<forall>c\<in>set (resume_calls f r). call_of (kind (promises s ! i)) c"
      using resume_call_of [OF fo] by blast
  qed (use resume nc in \<open>auto simp: resume_effect(3)\<close>)
qed

lemma reporter_inv_chain_then_catch:
  assumes inv: "reporter_inv s"
  shows "reporter_inv (chain_then_catch t s)"
proof -
  let ?ps = "promises s"
  let ?qs = "[\<lparr> kind = Then (promiseChain s) t, pstate = Waiting \<rparr>,
              \<lparr> kind = Catch (length (promises s)), pstate = Waiting \<rparr>]"
  have nth_new: "pstate ((?ps @ ?qs) ! j) = Waiting" if "\<not> j < length ?ps" "j < length (?ps @ ?qs)" for j
  proof -
    have "j = length ?ps \<or> j = Suc (length ?ps)" using that by auto
    then show ?thesis by (auto simp: nth_append)
  qed
  have old: "j < length ?ps" if "j < length (?ps @ ?qs)" "pstate ((?ps @ ?qs) ! j) \<noteq> Waiting" for j
    using that nth_new by blast
  have "chain_inv (chain_then_catch t s)"
    using inv inv_chain_then_catch unfolding reporter_inv_def by blast
  moreover have "frames_ok (promises (chain_then_catch t s))"
    unfolding frames_ok_def
  proof (intro allI impI)
    fix j f
    assume a: "j < length (promises (chain_then_catch t s))"
      "pstate (promises (chain_then_catch t s) ! j) = Running f"
    then have "j < length ?ps" using old [of j] by simp
    then show "frame_ok (kind (promises (chain_then_catch t s) ! j)) f"
      using a inv unfolding reporter_inv_def frames_ok_def by (simp add: nth_append)
  qed
  moreover have "calls_ok (chain_then_catch t s)"
  proof -
    have 1: "sorted (map fst (calls (chain_then_catch t s)))"
      using inv unfolding reporter_inv_def calls_ok_def by simp
    have 2: "j < length (promises (chain_then_catch t s)) \<and>
        pstate (promises (chain_then_catch t s) ! j) \<noteq> Waiting \<and>
        call_of (kind (promises (chain_then_catch t s) ! j)) c"
      if "(j, c) \<in> set (calls (chain_then_catch t s))" for j c
    proof -
      have "j < length ?ps \<and> pstate (?ps ! j) \<noteq> Waiting \<and> call_of (kind (?ps ! j)) c"
        using that inv unfolding reporter_inv_def calls_ok_def by simp
      then show ?thesis by (simp add: nth_append)
    qed
    have 3: "(\<exists>src. kind (promises (chain_then_catch t s) ! j) = Catch src) \<or>
        j \<in> fst ` set (calls (chain_then_catch t s))"
      if a: "j < length (promises (chain_then_catch t s))"
        "pstate (promises (chain_then_catch t s) ! j) \<noteq> Waiting" for j
    proof -
      have j: "j < length ?ps" using a old [of j] by simp
      then have "(\<exists>src. kind (?ps ! j) = Catch src) \<or> j \<in> fst ` set (calls s)"
        using a inv unfolding reporter_inv_def calls_ok_def by (simp add: nth_append)
      then show ?thesis using j by (simp add: nth_append)
    qed
    show ?thesis unfolding calls_ok_def using 1 2 3 by blast
  qed
  moreover have "logged (chain_then_catch t s)"
    unfolding logged_def
  proof (intro allI impI)
    fix j e
    assume a: "Suc j < length (promises (chain_then_catch t s)) \<and>
        pstate (promises (chain_then_catch t s) ! j) = Settled (Rejected e) \<and>
        (\<exists>x. pstate (promises (chain_then_catch t s) ! Suc j) = Settled x)"
    then have "Suc j < length ?ps" using old [of "Suc j"] by auto
    then have "e \<in> set (console_error s)"
      using a inv unfolding reporter_inv_def logged_def by (auto simp: nth_append)
    then show "e \<in> set (console_error (chain_then_catch t s))" by simp
  qed
  ultimately show ?thesis unfolding reporter_inv_def by blast
qed

lemma reporter_inv_fields:
  assumes "reporter_inv s" "promises s' = promises s" "promiseChain s' = promiseChain s"
    "calls s' = calls s" "console_error s' = console_error s"
  shows "reporter_inv s'"
  using assms unfolding reporter_inv_def chain_inv_def chain_wf_def calls_ok_def logged_def by simp

lemma reporter_inv_publish: "reporter_inv s \<Longrightarrow> reporter_inv (publishTestResults title g s)"
proof -
  have "reporter_inv s \<Longrightarrow>
      reporter_inv (foldl (\<lambda>s caseId. chain_then_catch (Publish caseId g) s) s ids)" for ids
    by (induction ids arbitrary: s) (auto simp: reporter_inv_chain_then_catch)
  then show "reporter_inv s \<Longrightarrow> reporter_inv (publishTestResults title g s)"
    unfolding publishTestResults_def by blast
qed

lemma reporter_inv_on_event: "reporter_inv s \<Longrightarrow> reporter_inv (on_event ev s)"
proof (cases ev)
  case EVENT_RUN_BEGIN
  assume inv: "reporter_inv s"
  have a: "reporter_inv (s\<lparr> run_begin_armed := False \<rparr>)"
    using inv by (rule reporter_inv_fields) auto
  then have "reporter_inv (createTestPlan (reporterOptions s) (s\<lparr> run_begin_armed := False \<rparr>))"
    unfolding createTestPlan_def
    by (auto intro: reporter_inv_chain_then_catch reporter_inv_fields [OF a])
  then show ?thesis using inv EVENT_RUN_BEGIN by (simp add: on_event_def)
qed (auto simp: on_event_def reporter_inv_publish)

lemma reporter_inv_step: "reporter_inv s \<Longrightarrow> reporter_inv (step a s)"
  by (cases a) (auto simp: step_def reporter_inv_on_event reporter_inv_react reporter_inv_respond)

lemma reporter_inv_run: "reporter_inv s \<Longrightarrow> reporter_inv (run acts s)"
  by (induction acts arbitrary: s) (auto simp: reporter_inv_step)

lemma reporter_inv_init:
  assumes "TestLinkReporter parse_url options = Inr s"
  shows "reporter_inv s"
proof -
  obtain ro conn where s: "s = \<lparr> reporterOptions = ro, testlink = conn, run_begin_armed = True,
      this_testplanid = JUndefined, this_buildid = JUndefined, this_testproject = None,
      promiseChain = 1,
      promises = [\<lparr> kind = Root, pstate = Running AwaitCheckDevKey \<rparr>,
                  \<lparr> kind = Catch 0, pstate = Waiting \<rparr>],
      calls = [(0, CheckDevKey)], console_error = [] \<rparr>"
    using assms unfolding TestLinkReporter_def by (auto split: sum.splits option.splits)
  have "frames_ok (promises s)" unfolding frames_ok_def s by (auto simp: less_Suc_eq)
  moreover have "calls_ok s" unfolding calls_ok_def s by (auto simp: less_Suc_eq)
  moreover have "logged s" unfolding logged_def s by (auto simp: less_Suc_eq)
  ultimately show ?thesis using inv_init [OF assms] unfolding reporter_inv_def by blast
qed

subsection \<open>The queue holds the tasks of the events, in the order of the events\<close>

fun task_of :: "pkind \<Rightarrow> task list" where
  "task_of (Then src t) = [t]"
| "task_of k = []"

definition queued_tasks :: "reporter \<Rightarrow> task list" where
  "queued_tasks s = concat (map (\<lambda>p. task_of (kind p)) (promises s))"

text \<open>
  The tasks an event asks for, read off the handlers registered by the constructor:
  the first run-begin event provisions a plan unless a plan id is configured, and a
  suite-end, test-pass or test-fail event publishes one result per case id of its title.
\<close>

fun event_tasks :: "reporter_options \<Rightarrow> bool \<Rightarrow> event \<Rightarrow> task list" where
  "event_tasks ro armed EVENT_RUN_BEGIN =
     (if armed \<and> \<not> truthy (opt ro ''testplanid'') then [Provision ro] else [])"
| "event_tasks ro armed (EVENT_SUITE_END suite) =
     map (\<lambda>c. Publish c (SuiteGen suite)) (titleToCaseIds (suite_title suite))"
| "event_tasks ro armed (EVENT_TEST_PASS t) =
     map (\<lambda>c. Publish c (TcGen (duration t) None)) (titleToCaseIds (test_title t))"
| "event_tasks ro armed (EVENT_TEST_FAIL t e) =
     map (\<lambda>c. Publish c (TcGen (duration t) (Some e))) (titleToCaseIds (test_title t))"

fun expected_queue :: "reporter_options \<Rightarrow> bool \<Rightarrow> action list \<Rightarrow> task list" where
  "expected_queue ro armed [] = []"
| "expected_queue ro armed (Emit ev # as) =
     event_tasks ro armed ev @ expected_queue ro (armed \<and> ev \<noteq> EVENT_RUN_BEGIN) as"
| "expected_queue ro armed (a # as) = expected_queue ro armed as"

lemma map_kind_upd_at: "map (\<lambda>p. f (kind p)) (upd_at i st ps) = map (\<lambda>p. f (kind p)) ps"
  by (rule nth_equalityI) simp_all

lemma queued_tasks_upd:
  "promises s' = upd_at i st (promises s) \<Longrightarrow> queued_tasks s' = queued_tasks s"
  unfolding queued_tasks_def by (simp add: map_kind_upd_at)

lemma queued_tasks_react: "queued_tasks (react i s) = queued_tasks s"
  using react_promises [of i s] by (auto simp: queued_tasks_def map_kind_upd_at)

lemma queued_tasks_respond: "queued_tasks (respond i r s) = queued_tasks s"
  using respond_promises [of i r s] by (auto simp: queued_tasks_def map_kind_upd_at)

lemma queued_tasks_chain_then_catch:
  "queued_tasks (chain_then_catch t s) = queued_tasks s @ [t]"
  by (simp add: queued_tasks_def)

lemma foldl_chain_then_catch:
  "queued_tasks (foldl (\<lambda>s c. chain_then_catch (f c) s) s ids) = queued_tasks s @ map f ids
   \<and> run_begin_armed (foldl (\<lambda>s c. chain_then_catch (f c) s) s ids) = run_begin_armed s
   \<and> reporterOptions (foldl (\<lambda>s c. chain_then_catch (f c) s) s ids) = reporterOptions s
   \<and> calls (foldl (\<lambda>s c. chain_then_catch (f c) s) s ids) = calls s"
  by (induction ids arbitrary: s) (simp_all add: queued_tasks_chain_then_catch)

lemma queued_tasks_on_event:
  "queued_tasks (on_event ev s) =
     queued_tasks s @ event_tasks (reporterOptions s) (run_begin_armed s) ev"
proof (cases ev)
  case EVENT_RUN_BEGIN
  then show ?thesis
    by (simp add: on_event_def createTestPlan_def queued_tasks_chain_then_catch)
      (simp add: queued_tasks_def)
qed (simp_all add: on_event_def publishTestResults_def foldl_chain_then_catch)

lemma on_event_frame:
  "reporterOptions (on_event ev s) = reporterOptions s"
  "run_begin_armed (on_event ev s) = (run_begin_armed s \<and> ev \<noteq> EVENT_RUN_BEGIN)"
  "calls (on_event ev s) = calls s"
  by (cases ev; simp add: on_event_def createTestPlan_def publishTestResults_def
      foldl_chain_then_catch)+

lemma react_frame [simp]:
  "reporterOptions (react i s) = reporterOptions s"
  "run_begin_armed (react i s) = run_begin_armed s"
  "promiseChain (react i s) = promiseChain s"
  by (cases i s rule: react_cases; simp)+

lemma respond_frame [simp]:
  "reporterOptions (respond i r s) = reporterOptions s"
  "run_begin_armed (respond i r s) = run_begin_armed s"
  "promiseChain (respond i r s) = promiseChain s"
  by (cases i r s rule: respond_cases; simp)+

lemma queued_tasks_run:
  "queued_tasks (run acts s) =
     queued_tasks s @ expected_queue (reporterOptions s) (run_begin_armed s) acts"
proof (induction acts arbitrary: s)
  case Nil
  then show ?case by simp
next
  case (Cons a acts)
  show ?case
  proof (cases a)
    case (Emit ev)
    then show ?thesis
      using Cons [of "on_event ev s"]
      by (simp add: step_def queued_tasks_on_event on_event_frame)
  next
    case (React i)
    then show ?thesis using Cons [of "react i s"] by (simp add: step_def queued_tasks_react)
  next
    case (Respond i r)
    then show ?thesis
      using Cons [of "respond i r s"] by (simp add: step_def queued_tasks_respond)
  qed
qed

lemma init_fields:
  assumes "TestLinkReporter parse_url (Some ro) = Inr s"
  shows "reporterOptions s = ro" "run_begin_armed s" "queued_tasks s = []"
    "this_testplanid s = JUndefined" "this_buildid s = JUndefined" "this_testproject s = None"
    "calls s = [(0, CheckDevKey)]" "console_error s = []"
  using assms unfolding TestLinkReporter_def queued_tasks_def
  by (auto split: sum.splits option.splits)

lemma one_running:
  assumes "sequential ps" "i < length ps" "j < length ps"
    "pstate (ps ! i) = Running f" "pstate (ps ! j) = Running g"
  shows "i = j"
proof (rule ccontr)
  assume "i \<noteq> j"
  then consider "i < j" | "j < i" by linarith
  then show False
  proof cases
    case 1
    then show ?thesis using sequentialD [OF assms(1) 1 assms(3)] assms(4,5) by auto
  next
    case 2
    then show ?thesis using sequentialD [OF assms(1) 2 assms(2)] assms(4,5) by auto
  qed
qed

text \<open>
  Claim C1. After any sequence of events, reaction jobs and answers of the client, in any
  interleaving: the promises form one chain (each is derived from its predecessor and
  \<open>this.promiseChain\<close> is the last); the tasks on the chain are those of the events, in the
  order of the events; a promise has left \<open>Waiting\<close> only if all promises before it have
  settled, so at most one call is in flight; and the calls were received by the client in
  the order of the promises that issued them, each call being one of its promise's task.
\<close>
theorem promise_chain_order:
  assumes "TestLinkReporter parse_url (Some ro) = Inr s0"
  shows
    "Suc (promiseChain (run acts s0)) = length (promises (run acts s0))
     \<and> (\<forall>i < length (promises (run acts s0)).
          case kind (promises (run acts s0) ! i) of
            Root \<Rightarrow> i = 0
          | Then src t \<Rightarrow> i = Suc src \<and> even i
          | Catch src \<Rightarrow> i = Suc src \<and> odd i)
     \<and> queued_tasks (run acts s0) = expected_queue ro True acts
     \<and> (\<forall>i j. i < j \<and> j < length (promises (run acts s0)) \<and>
            pstate (promises (run acts s0) ! j) \<noteq> Waiting \<longrightarrow>
            (\<exists>x. pstate (promises (run acts s0) ! i) = Settled x))
     \<and> (\<forall>i j f g. i < length (promises (run acts s0)) \<and> j < length (promises (run acts s0)) \<and>
            pstate (promises (run acts s0) ! i) = Running f \<and>
            pstate (promises (run acts s0) ! j) = Running g \<longrightarrow> i = j)
     \<and> sorted (map fst (calls (run acts s0)))
     \<and> (\<forall>i c. (i, c) \<in> set (calls (run acts s0)) \<longrightarrow>
            i < length (promises (run acts s0)) \<and>
            pstate (promises (run acts s0) ! i) \<noteq> Waiting \<and>
            call_of (kind (promises (run acts s0) ! i)) c)"
proof -
  let ?s = "run acts s0"
  have inv: "reporter_inv ?s" using reporter_inv_run [OF reporter_inv_init [OF assms]] .
  then have wf: "chain_wf ?s" and seq: "sequential (promises ?s)" and co: "calls_ok ?s"
    unfolding reporter_inv_def chain_inv_def by blast+
  have q: "queued_tasks ?s = expected_queue ro True acts"
    using queued_tasks_run [of acts s0] init_fields [OF assms] by simp
  have one: "\<forall>i j f g. i < length (promises ?s) \<and> j < length (promises ?s) \<and>
      pstate (promises ?s ! i) = Running f \<and> pstate (promises ?s ! j) = Running g \<longrightarrow> i = j"
    using one_running [OF seq] by blast
  show ?thesis
    using wf seq co q one unfolding chain_wf_def sequential_def calls_ok_def by blast
qed


subsection \<open>Draining the queue\<close>

text \<open>
  A schedule that lets every promise react and answers each of its calls, one promise
  after the other; \<open>rs i\<close> are the client's answers to the calls of promise \<open>i\<close>.
\<close>

definition settle_promise :: "nat \<Rightarrow> response list \<Rightarrow> action list" where
  "settle_promise i rs = React i # map (Respond i) rs"

definition drain :: "nat \<Rightarrow> (nat \<Rightarrow> response list) \<Rightarrow> action list" where
  "drain n rs = concat (map (\<lambda>i. settle_promise i (rs i)) [0..<n])"

fun frame_rank :: "frame \<Rightarrow> nat" where
  "frame_rank (AwaitCreateTestPlan ro) = 3"
| "frame_rank (AwaitCreateBuild ro) = 2"
| "frame_rank (AwaitAddTestCase options) = 2"
| "frame_rank f = 1"

fun pstate_rank :: "pstate \<Rightarrow> nat" where
  "pstate_rank Waiting = 4"
| "pstate_rank (Running f) = frame_rank f"
| "pstate_rank (Settled x) = 0"

lemma resume_rank: "pstate_rank (resume_pstate f r) < frame_rank f"
  by (cases "(f, r)" rule: resume_pstate.cases) simp_all

lemma run_append: "run (xs @ ys) s = run ys (run xs s)"
  by (induction xs arbitrary: s) simp_all

lemma react_length [simp]: "length (promises (react i s)) = length (promises s)"
  using react_promises [of i s] by auto

lemma respond_length [simp]: "length (promises (respond i r s)) = length (promises s)"
  using respond_promises [of i r s] by auto

lemma react_other:
  "j \<noteq> i \<Longrightarrow> j < length (promises s) \<Longrightarrow>
     pstate (promises (react i s) ! j) = pstate (promises s ! j)"
  using react_promises [of i s] by auto

lemma respond_other:
  "j \<noteq> i \<Longrightarrow> j < length (promises s) \<Longrightarrow>
     pstate (promises (respond i r s) ! j) = pstate (promises s ! j)"
  using respond_promises [of i r s] by auto

lemma react_progress:
  assumes wf: "chain_wf s" and k: "k < length (promises s)" "0 < k"
    and src: "pstate (promises s ! (k - 1)) = Settled x"
  shows "pstate (promises (react k s) ! k) \<noteq> Waiting"
proof (cases "pstate (promises s ! k) = Waiting")
  case False
  then have "react k s = s" by (simp add: react_def)
  then show ?thesis using False by simp
next
  case True
  have shape: "case kind (promises s ! k) of Root \<Rightarrow> k = 0
      | Then src t \<Rightarrow> k = Suc src \<and> even k | Catch src \<Rightarrow> k = Suc src \<and> odd k"
    using wf k(1) unfolding chain_wf_def by blast
  show ?thesis
  proof (cases "kind (promises s ! k)")
    case Root
    then show ?thesis using shape k by simp
  next
    case (Then a t)
    then have a: "a = k - 1" "a < length (promises s)" using shape k by auto
    show ?thesis
    proof (cases x)
      case Fulfilled
      then have "react k s = start_task k t s"
        using True Then a src k by (simp add: react_def)
      then show ?thesis using k by (simp add: start_task_effect(1))
    next
      case (Rejected e)
      then have "react k s = set_pstate k (Settled (Rejected e)) s"
        using True Then a src k by (simp add: react_def)
      then show ?thesis using k by (simp add: nth_list_update)
    qed
  next
    case (Catch a)
    then have a: "a = k - 1" "a < length (promises s)" using shape k by auto
    show ?thesis
    proof (cases x)
      case Fulfilled
      then have "react k s = set_pstate k (Settled Fulfilled) s"
        using True Catch a src k by (simp add: react_def)
      then show ?thesis using k by (simp add: nth_list_update)
    next
      case (Rejected e)
      then have "react k s = set_pstate k (Settled Fulfilled)
          (s\<lparr> console_error := console_error s @ [e] \<rparr>)"
        using True Catch a src k by (simp add: react_def)
      then show ?thesis using k by (simp add: nth_list_update)
    qed
  qed
qed

lemma respond_rank:
  assumes "k < length (promises s)" "pstate (promises s ! k) \<noteq> Waiting"
  shows "pstate_rank (pstate (promises (respond k r s) ! k)) \<le> pstate_rank (pstate (promises s ! k)) - 1"
proof (cases "pstate (promises s ! k)")
  case Waiting
  then show ?thesis using assms by simp
next
  case (Running f)
  then have "respond k r s = resume k f r s" using assms by (simp add: respond_def)
  then show ?thesis using Running assms resume_rank [of f r] by (simp add: resume_effect(1))
next
  case (Settled x)
  then have "respond k r s = s" using assms by (simp add: respond_def)
  then show ?thesis using Settled by simp
qed

lemma responds_rank:
  assumes "k < length (promises s)" "pstate (promises s ! k) \<noteq> Waiting"
  shows "pstate_rank (pstate (promises (run (map (Respond k) rs) s) ! k))
           \<le> pstate_rank (pstate (promises s ! k)) - length rs
         \<and> length (promises (run (map (Respond k) rs) s)) = length (promises s)
         \<and> (\<forall>j < length (promises s). j \<noteq> k \<longrightarrow>
              pstate (promises (run (map (Respond k) rs) s) ! j) = pstate (promises s ! j))"
  using assms
proof (induction rs arbitrary: s)
  case Nil
  then show ?case by simp
next
  case (Cons r rs)
  let ?s = "respond k r s"
  have a: "k < length (promises ?s)" using Cons.prems by simp
  have b: "pstate (promises ?s ! k) \<noteq> Waiting"
  proof
    assume "pstate (promises ?s ! k) = Waiting"
    then have "pstate_rank (pstate (promises ?s ! k)) = 4" by simp
    moreover have "pstate_rank (pstate (promises s ! k)) \<le> 3"
      using Cons.prems(2)
    proof (cases "pstate (promises s ! k)")
      case (Running f)
      then show ?thesis by (cases f) simp_all
    qed simp_all
    ultimately show False using respond_rank [OF Cons.prems, of r] by simp
  qed
  have ih: "pstate_rank (pstate (promises (run (map (Respond k) rs) ?s) ! k))
           \<le> pstate_rank (pstate (promises ?s ! k)) - length rs
         \<and> length (promises (run (map (Respond k) rs) ?s)) = length (promises ?s)
         \<and> (\<forall>j < length (promises ?s). j \<noteq> k \<longrightarrow>
              pstate (promises (run (map (Respond k) rs) ?s) ! j) = pstate (promises ?s ! j))"
    using Cons.IH [OF a b] .
  show ?case
    using ih respond_rank [OF Cons.prems, of r] respond_other [of _ k s r]
    by (auto simp: step_def)
qed

lemma pstate_rank_0: "pstate_rank st = 0 \<Longrightarrow> \<exists>x. st = Settled x"
  by (cases st rule: pstate_rank.cases) (auto elim: frame_rank.elims)


lemma not_Waiting_rank: "st \<noteq> Waiting \<Longrightarrow> pstate_rank st \<le> 3"
proof (cases st)
  case (Running f)
  then show ?thesis by (cases f) simp_all
qed simp_all

lemma settle_promise_settles:
  assumes inv: "reporter_inv s" and k: "k < length (promises s)"
    and prior: "\<forall>j < k. \<exists>x. pstate (promises s ! j) = Settled x"
    and rs: "3 \<le> length rs"
  shows "reporter_inv (run (settle_promise k rs) s)
         \<and> length (promises (run (settle_promise k rs) s)) = length (promises s)
         \<and> (\<forall>j < Suc k. \<exists>x. pstate (promises (run (settle_promise k rs) s) ! j) = Settled x)"
proof -
  let ?s1 = "react k s"
  let ?s2 = "run (map (Respond k) rs) ?s1"
  have run: "run (settle_promise k rs) s = ?s2" by (simp add: settle_promise_def step_def)
  have wf: "chain_wf s" and root: "pstate (promises s ! 0) \<noteq> Waiting"
    using inv unfolding reporter_inv_def chain_inv_def by blast+
  have k1: "k < length (promises ?s1)" using k by simp
  have nw: "pstate (promises ?s1 ! k) \<noteq> Waiting"
  proof (cases "k = 0")
    case True
    then have "react k s = s" using root by (simp add: react_def)
    then show ?thesis using root True by simp
  next
    case False
    then obtain x where "pstate (promises s ! (k - 1)) = Settled x" using prior by force
    then show ?thesis using react_progress [OF wf k] False by simp
  qed
  have r: "pstate_rank (pstate (promises ?s2 ! k)) \<le> pstate_rank (pstate (promises ?s1 ! k)) - length rs"
    and len: "length (promises ?s2) = length (promises ?s1)"
    and other: "\<forall>j < length (promises ?s1). j \<noteq> k \<longrightarrow>
        pstate (promises ?s2 ! j) = pstate (promises ?s1 ! j)"
    using responds_rank [OF k1 nw, of rs] by blast+
  have "pstate_rank (pstate (promises ?s2 ! k)) = 0"
    using r not_Waiting_rank [OF nw] rs by simp
  then have sk: "\<exists>x. pstate (promises ?s2 ! k) = Settled x" by (rule pstate_rank_0)
  have sj: "\<exists>x. pstate (promises ?s2 ! j) = Settled x" if "j < k" for j
  proof -
    have "pstate (promises ?s2 ! j) = pstate (promises ?s1 ! j)" using other that k by simp
    also have "\<dots> = pstate (promises s ! j)" using react_other [of j k s] that k by simp
    finally show ?thesis using prior that by simp
  qed
  have "\<forall>j < Suc k. \<exists>x. pstate (promises ?s2 ! j) = Settled x"
    using sk sj by (auto simp: less_Suc_eq)
  moreover have "reporter_inv ?s2" using inv by (intro reporter_inv_run reporter_inv_react)
  ultimately show ?thesis unfolding run using len by simp
qed

lemma drain_Suc: "drain (Suc n) rs = drain n rs @ settle_promise n (rs n)"
  by (simp add: drain_def)

lemma drain_settles:
  assumes inv: "reporter_inv s" and rs: "\<forall>i. 3 \<le> length (rs i)"
  shows "n \<le> length (promises s) \<Longrightarrow>
     reporter_inv (run (drain n rs) s)
     \<and> length (promises (run (drain n rs) s)) = length (promises s)
     \<and> (\<forall>j < n. \<exists>x. pstate (promises (run (drain n rs) s) ! j) = Settled x)"
proof (induction n)
  case 0
  then show ?case using inv by (simp add: drain_def)
next
  case (Suc n)
  let ?s = "run (drain n rs) s"
  have ih: "reporter_inv ?s" "length (promises ?s) = length (promises s)"
    "\<forall>j < n. \<exists>x. pstate (promises ?s ! j) = Settled x"
    using Suc by simp_all
  have n: "n < length (promises ?s)" using Suc.prems ih(2) by simp
  have "3 \<le> length (rs n)" using rs by blast
  then show ?case
    using settle_promise_settles [OF ih(1) n ih(3)] ih(2)
    by (simp add: drain_Suc run_append)
qed

lemma expected_queue_no_emit:
  "\<forall>a \<in> set as. \<forall>ev. a \<noteq> Emit ev \<Longrightarrow> expected_queue ro b as = []"
proof (induction as)
  case Nil
  then show ?case by simp
next
  case (Cons a as)
  then show ?case by (cases a) auto
qed

lemma expected_queue_drain: "expected_queue ro b (drain n rs) = []"
  by (rule expected_queue_no_emit) (auto simp: drain_def settle_promise_def)

lemma foldl_chain_promises:
  "\<exists>qs. promises (foldl (\<lambda>s c. chain_then_catch (f c) s) s ids) = promises s @ qs"
proof (induction ids arbitrary: s)
  case Nil
  then show ?case by simp
next
  case (Cons c ids)
  obtain qs where "promises (foldl (\<lambda>s c. chain_then_catch (f c) s) (chain_then_catch (f c) s) ids)
      = promises (chain_then_catch (f c) s) @ qs"
    using Cons [of "chain_then_catch (f c) s"] by blast
  then show ?case by simp
qed

lemma on_event_promises: "\<exists>qs. promises (on_event ev s) = promises s @ qs"
proof (cases ev)
  case EVENT_RUN_BEGIN
  then show ?thesis by (simp add: on_event_def createTestPlan_def)
qed (simp_all add: on_event_def publishTestResults_def foldl_chain_promises)

lemma kind_step:
  assumes "i < length (promises s)"
  shows "i < length (promises (step a s)) \<and> kind (promises (step a s) ! i) = kind (promises s ! i)"
proof (cases a)
  case (Emit ev)
  obtain qs where "promises (on_event ev s) = promises s @ qs" using on_event_promises by blast
  then show ?thesis using assms Emit by (simp add: step_def nth_append)
next
  case (React k)
  then show ?thesis using assms react_promises [of k s] by (auto simp: step_def)
next
  case (Respond k r)
  then show ?thesis using assms respond_promises [of k r s] by (auto simp: step_def)
qed

lemma kind_run:
  "i < length (promises s) \<Longrightarrow>
     i < length (promises (run acts s)) \<and> kind (promises (run acts s) ! i) = kind (promises s ! i)"
proof (induction acts arbitrary: s)
  case Nil
  then show ?case by simp
next
  case (Cons a acts)
  then show ?case using kind_step [of i s a] by simp
qed

subsection \<open>The log holds one line for each rejection\<close>

text \<open>
  What the log has to hold, read off the chain: the rejection of every promise whose
  \<open>catch\<close> has settled, one line for each such promise, in the order of the chain.
\<close>

definition log_entry :: "promise list \<Rightarrow> nat \<Rightarrow> rejection list" where
  "log_entry ps i =
     (case pstate (ps ! i) of
        Settled (Rejected e) \<Rightarrow> (case pstate (ps ! Suc i) of Settled x \<Rightarrow> [e] | _ \<Rightarrow> [])
      | _ \<Rightarrow> [])"

definition logged_rejections :: "promise list \<Rightarrow> rejection list" where
  "logged_rejections ps = concat (map (log_entry ps) [0..<length ps - 1])"

text \<open>The rejections of the promises of a chain, in the order of the chain.\<close>

definition rejections :: "promise list \<Rightarrow> rejection list" where
  "rejections ps =
     concat (map (\<lambda>p. case pstate p of Settled (Rejected e) \<Rightarrow> [e] | _ \<Rightarrow> []) ps)"

definition log_exact :: "reporter \<Rightarrow> bool" where
  "log_exact s \<longleftrightarrow> console_error s = logged_rejections (promises s)"

lemma concat_map_upt_cong:
  "(\<And>i. i < n \<Longrightarrow> f i = g i) \<Longrightarrow> concat (map f [0..<n]) = concat (map g [0..<n])"
  by (rule arg_cong [where f = concat]) simp

lemma concat_map_upt_one:
  assumes k: "k < n"
    and same: "\<And>i. i < k \<Longrightarrow> g i = f i"
    and fk: "f k = []"
    and after: "\<And>i. k < i \<Longrightarrow> i < n \<Longrightarrow> f i = [] \<and> g i = []"
  shows "concat (map g [0..<n]) = concat (map f [0..<n]) @ g k"
proof -
  have sp: "[0..<n] = [0..<k] @ k # [Suc k..<n]"
    using k by (metis le_add1 less_imp_add_positive upt_add_eq_append upt_conv_Cons plus_nat.add_0 less_or_eq_imp_le)
  have a: "concat (map g [0..<k]) = concat (map f [0..<k])"
    using same by (intro arg_cong [where f = concat]) simp
  have b: "concat (map g [Suc k..<n]) = []" "concat (map f [Suc k..<n]) = []"
    using after by auto
  show ?thesis unfolding sp by (simp add: a b fk)
qed

lemma log_entry_cong:
  assumes "pstate (qs ! i) = pstate (ps ! i)" "pstate (qs ! Suc i) = pstate (ps ! Suc i)"
  shows "log_entry qs i = log_entry ps i"
  unfolding log_entry_def assms by (rule refl)

lemma log_entry_next_unsettled:
  "\<forall>x. pstate (ps ! Suc i) \<noteq> Settled x \<Longrightarrow> log_entry ps i = []"
  by (simp add: log_entry_def split: pstate.splits settled.splits)

lemma log_entry_not_rejected:
  "\<forall>e. pstate (ps ! i) \<noteq> Settled (Rejected e) \<Longrightarrow> log_entry ps i = []"
  by (simp add: log_entry_def split: pstate.splits settled.splits)

lemma log_entry_rejected:
  "pstate (ps ! i) = Settled (Rejected e) \<Longrightarrow> pstate (ps ! Suc i) = Settled x
     \<Longrightarrow> log_entry ps i = [e]"
  by (simp add: log_entry_def)

lemma log_entry_upd:
  assumes seq: "sequential ps" and k: "k < length ps"
    and unsettled: "\<forall>x. pstate (ps ! k) \<noteq> Settled x"
    and before: "0 < k \<longrightarrow> (\<forall>e. pstate (ps ! (k - 1)) \<noteq> Settled (Rejected e))"
    and i: "Suc i < length ps"
  shows "log_entry (upd_at k st ps) i = log_entry ps i"
proof -
  consider "i = k" | "Suc i = k" | "i \<noteq> k" "Suc i \<noteq> k" by blast
  then show ?thesis
  proof cases
    case 1
    have w: "pstate (ps ! Suc k) = Waiting"
    proof (rule ccontr)
      assume "pstate (ps ! Suc k) \<noteq> Waiting"
      then have "\<exists>x. pstate (ps ! k) = Settled x"
        using seq i 1 unfolding sequential_def by blast
      then show False using unsettled by blast
    qed
    have "pstate (upd_at k st ps ! Suc k) = Waiting" using w i 1 by simp
    then show ?thesis using w 1 by (simp add: log_entry_next_unsettled)
  next
    case 2
    then have n: "\<forall>e. pstate (ps ! i) \<noteq> Settled (Rejected e)" using before by auto
    moreover have "pstate (upd_at k st ps ! i) = pstate (ps ! i)" using 2 i by simp
    ultimately show ?thesis by (simp add: log_entry_not_rejected)
  next
    case 3
    show ?thesis by (rule log_entry_cong) (use 3 i in simp_all)
  qed
qed

lemma logged_rejections_upd:
  assumes "sequential ps" "k < length ps" "\<forall>x. pstate (ps ! k) \<noteq> Settled x"
    "0 < k \<longrightarrow> (\<forall>e. pstate (ps ! (k - 1)) \<noteq> Settled (Rejected e))"
  shows "logged_rejections (upd_at k st ps) = logged_rejections ps"
  unfolding logged_rejections_def length_upd_at
  by (rule concat_map_upt_cong) (simp add: log_entry_upd [OF assms])

lemma logged_rejections_catch:
  assumes seq: "sequential ps" and k: "Suc k < length ps"
    and w: "pstate (ps ! Suc k) = Waiting"
    and r: "pstate (ps ! k) = Settled (Rejected e)"
  shows "logged_rejections (upd_at (Suc k) (Settled Fulfilled) ps) = logged_rejections ps @ [e]"
proof -
  let ?qs = "upd_at (Suc k) (Settled Fulfilled) ps"
  have later: "pstate (ps ! j) = Waiting" if "Suc k < j" "j < length ps" for j
  proof (rule ccontr)
    assume "pstate (ps ! j) \<noteq> Waiting"
    then have "\<exists>x. pstate (ps ! Suc k) = Settled x"
      using seq that unfolding sequential_def by blast
    then show False using w by simp
  qed
  have "concat (map (log_entry ?qs) [0..<length ps - 1])
          = concat (map (log_entry ps) [0..<length ps - 1]) @ log_entry ?qs k"
  proof (rule concat_map_upt_one)
    show "k < length ps - 1" using k by simp
    show "log_entry ?qs i = log_entry ps i" if "i < k" for i
      by (rule log_entry_cong) (use that k in simp_all)
    show "log_entry ps k = []" using w by (simp add: log_entry_next_unsettled)
    show "log_entry ps i = [] \<and> log_entry ?qs i = []" if "k < i" "i < length ps - 1" for i
    proof (cases "i = Suc k")
      case True
      then have "\<forall>e. pstate (ps ! i) \<noteq> Settled (Rejected e)"
        "\<forall>e. pstate (?qs ! i) \<noteq> Settled (Rejected e)"
        using w that by simp_all
      then show ?thesis by (simp add: log_entry_not_rejected)
    next
      case False
      then have "pstate (ps ! i) = Waiting" using later [of i] that by simp
      moreover have "pstate (?qs ! i) = pstate (ps ! i)" using that False by simp
      ultimately show ?thesis by (simp add: log_entry_not_rejected)
    qed
  qed
  moreover have "log_entry ?qs k = [e]"
    by (rule log_entry_rejected [where x = Fulfilled]) (use k r in simp_all)
  ultimately show ?thesis unfolding logged_rejections_def length_upd_at by simp
qed

lemma logged_rejections_append:
  assumes "2 \<le> length ps"
  shows "logged_rejections (ps @ [\<lparr> kind = a, pstate = Waiting \<rparr>, \<lparr> kind = b, pstate = Waiting \<rparr>])
           = logged_rejections ps"
proof -
  let ?qs = "ps @ [\<lparr> kind = a, pstate = Waiting \<rparr>, \<lparr> kind = b, pstate = Waiting \<rparr>]"
  define n where "n = length ps - 1"
  have n: "length ps = Suc n" using assms by (simp add: n_def)
  have len: "length ?qs - 1 = Suc (Suc n)" by (simp add: n)
  have old: "log_entry ?qs i = log_entry ps i" if "i < n" for i
    by (rule log_entry_cong) (use that in \<open>simp_all add: nth_append n\<close>)
  have new: "log_entry ?qs n = []" "log_entry ?qs (Suc n) = []"
    by (rule log_entry_next_unsettled, simp add: nth_append n)
      (rule log_entry_not_rejected, simp add: nth_append n)
  have "concat (map (log_entry ?qs) [0..<n]) = concat (map (log_entry ps) [0..<n])"
    using old by (intro arg_cong [where f = concat]) simp
  then show ?thesis unfolding logged_rejections_def len by (simp add: new n_def [symmetric] n)
qed


lemma log_exact_upd:
  assumes inv: "reporter_inv s" and le: "log_exact s"
    and p: "promises s' = upd_at i st (promises s)"
    and c: "console_error s' = console_error s"
    and i: "i < length (promises s)"
    and unsettled: "\<forall>x. pstate (promises s ! i) \<noteq> Settled x"
    and before: "0 < i \<longrightarrow> (\<forall>e. pstate (promises s ! (i - 1)) \<noteq> Settled (Rejected e))"
  shows "log_exact s'"
proof -
  have seq: "sequential (promises s)" using inv unfolding reporter_inv_def chain_inv_def by blast
  show ?thesis
    using le unfolding log_exact_def p c
    by (simp add: logged_rejections_upd [OF seq i unsettled before])
qed

lemma log_exact_react:
  assumes inv: "reporter_inv s" and le: "log_exact s"
  shows "log_exact (react i s)"
proof (cases i s rule: react_cases)
  case idle
  then show ?thesis using le by simp
next
  case (start src t)
  have wf: "chain_wf s" using inv unfolding reporter_inv_def chain_inv_def by blast
  have isrc: "i = Suc src" using then_source [OF wf start(1,3)] by blast
  show ?thesis unfolding start(6)
  proof (rule log_exact_upd [OF inv le start_task_effect(1) _ start(1)])
    show "console_error (start_task i t s) = console_error s" by simp
    show "\<forall>x. pstate (promises s ! i) \<noteq> Settled x" using start(2) by simp
    show "0 < i \<longrightarrow> (\<forall>e. pstate (promises s ! (i - 1)) \<noteq> Settled (Rejected e))"
      using isrc start(5) by simp
  qed
next
  case (skip src t e)
  have "Rejected e = Fulfilled"
    using then_source_fulfilled [OF reporter_inv_chain [OF inv] skip(1,3,5)] .
  then show ?thesis by simp
next
  case (pass src)
  have wf: "chain_wf s" using inv unfolding reporter_inv_def chain_inv_def by blast
  have isrc: "i = Suc src" using catch_source [OF wf pass(1,3)] .
  show ?thesis unfolding pass(6)
  proof (rule log_exact_upd [OF inv le promises_set_pstate _ pass(1)])
    show "console_error (set_pstate i (Settled Fulfilled) s) = console_error s"
      by (simp add: set_pstate_def)
    show "\<forall>x. pstate (promises s ! i) \<noteq> Settled x" using pass(2) by simp
    show "0 < i \<longrightarrow> (\<forall>e. pstate (promises s ! (i - 1)) \<noteq> Settled (Rejected e))"
      using isrc pass(5) by simp
  qed
next
  case (log src e)
  have wf: "chain_wf s" using inv unfolding reporter_inv_def chain_inv_def by blast
  have seq: "sequential (promises s)" using inv unfolding reporter_inv_def chain_inv_def by blast
  have isrc: "i = Suc src" using catch_source [OF wf log(1,3)] .
  have p: "promises (react i s) = upd_at i (Settled Fulfilled) (promises s)"
    unfolding log(6) by (simp add: set_pstate_def upd_at_def)
  have c: "console_error (react i s) = console_error s @ [e]"
    unfolding log(6) by (simp add: set_pstate_def)
  have "logged_rejections (upd_at (Suc src) (Settled Fulfilled) (promises s))
          = logged_rejections (promises s) @ [e]"
    using log(1,2,5) unfolding isrc by (intro logged_rejections_catch [OF seq])
  then have "logged_rejections (upd_at i (Settled Fulfilled) (promises s))
          = logged_rejections (promises s) @ [e]"
    unfolding isrc .
  then show ?thesis using le unfolding log_exact_def p c by simp
qed

lemma log_exact_respond:
  assumes inv: "reporter_inv s" and le: "log_exact s"
  shows "log_exact (respond i r s)"
proof (cases i r s rule: respond_cases)
  case idle
  then show ?thesis using le by simp
next
  case (resume f)
  have wf: "chain_wf s" and ck: "catch_ok (promises s)"
    using inv unfolding reporter_inv_def chain_inv_def by blast+
  have fo: "frame_ok (kind (promises s ! i)) f"
    using inv resume(1,2) unfolding reporter_inv_def frames_ok_def by blast
  then have nc: "\<forall>src. kind (promises s ! i) \<noteq> Catch src" by auto
  have before: "\<forall>e. pstate (promises s ! (i - 1)) \<noteq> Settled (Rejected e)" if "0 < i"
  proof (cases "kind (promises s ! i)")
    case Root
    then have "i = 0" using wf resume(1) unfolding chain_wf_def by (auto split: pkind.splits)
    then show ?thesis using that by simp
  next
    case (Then src t)
    obtain src' where a: "i = Suc src" "kind (promises s ! src) = Catch src'"
      using then_source [OF wf resume(1) Then] by blast
    then have "src < length (promises s)" using resume(1) by simp
    then have "pstate (promises s ! src) = Waiting \<or> pstate (promises s ! src) = Settled Fulfilled"
      using catch_okD [OF ck _ a(2)] by blast
    then show ?thesis using a(1) by auto
  next
    case (Catch src)
    then show ?thesis using nc by blast
  qed
  show ?thesis unfolding resume(3)
  proof (rule log_exact_upd [OF inv le resume_effect(1) resume_effect(3) resume(1)])
    show "\<forall>x. pstate (promises s ! i) \<noteq> Settled x" using resume(2) by simp
    show "0 < i \<longrightarrow> (\<forall>e. pstate (promises s ! (i - 1)) \<noteq> Settled (Rejected e))"
      using before by blast
  qed
qed

definition log_inv :: "reporter \<Rightarrow> bool" where
  "log_inv s \<longleftrightarrow> reporter_inv s \<and> log_exact s"

lemma log_inv_chain_then_catch:
  assumes "log_inv s"
  shows "log_inv (chain_then_catch t s)"
proof -
  have inv: "reporter_inv s" and le: "log_exact s" using assms unfolding log_inv_def by blast+
  have wf: "chain_wf s" using inv unfolding reporter_inv_def chain_inv_def by blast
  have "log_exact (chain_then_catch t s)"
    using le unfolding log_exact_def
    by (simp add: logged_rejections_append [OF chain_wf_length [OF wf]])
  then show ?thesis using reporter_inv_chain_then_catch [OF inv] unfolding log_inv_def by blast
qed

lemma log_inv_publish: "log_inv s \<Longrightarrow> log_inv (publishTestResults title g s)"
proof -
  have "log_inv s \<Longrightarrow> log_inv (foldl (\<lambda>s caseId. chain_then_catch (Publish caseId g) s) s ids)"
    for ids
    by (induction ids arbitrary: s) (auto simp: log_inv_chain_then_catch)
  then show "log_inv s \<Longrightarrow> log_inv (publishTestResults title g s)"
    unfolding publishTestResults_def by blast
qed

lemma log_inv_on_event:
  assumes "log_inv s"
  shows "log_inv (on_event ev s)"
proof (cases ev)
  case EVENT_RUN_BEGIN
  let ?a = "s\<lparr> run_begin_armed := False \<rparr>"
  have a: "log_inv ?a"
    using assms reporter_inv_on_event [of s EVENT_RUN_BEGIN]
    unfolding log_inv_def log_exact_def
    by (auto intro: reporter_inv_fields [where s = s])
  let ?b = "?a\<lparr> this_testplanid := opt (reporterOptions s) ''testplanid'',
               this_buildid := opt (reporterOptions s) ''buildid'' \<rparr>"
  have b: "log_inv ?b"
    using a unfolding log_inv_def log_exact_def
    by (auto intro: reporter_inv_fields [where s = ?a])
  have "log_inv (createTestPlan (reporterOptions s) ?a)"
    unfolding createTestPlan_def using b log_inv_chain_then_catch [OF a] by simp
  then show ?thesis using assms EVENT_RUN_BEGIN by (simp add: on_event_def)
qed (use assms in \<open>auto simp: on_event_def log_inv_publish\<close>)

lemma log_inv_step: "log_inv s \<Longrightarrow> log_inv (step a s)"
  unfolding log_inv_def
  by (cases a)
    (auto simp: step_def reporter_inv_on_event reporter_inv_react reporter_inv_respond
      log_exact_react log_exact_respond
      dest: log_inv_on_event [unfolded log_inv_def, OF conjI])

lemma log_inv_run: "log_inv s \<Longrightarrow> log_inv (run acts s)"
  by (induction acts arbitrary: s) (auto simp: log_inv_step)

lemma log_inv_init:
  assumes "TestLinkReporter parse_url options = Inr s"
  shows "log_inv s"
proof -
  obtain ro conn where s: "s = \<lparr> reporterOptions = ro, testlink = conn, run_begin_armed = True,
      this_testplanid = JUndefined, this_buildid = JUndefined, this_testproject = None,
      promiseChain = 1,
      promises = [\<lparr> kind = Root, pstate = Running AwaitCheckDevKey \<rparr>,
                  \<lparr> kind = Catch 0, pstate = Waiting \<rparr>],
      calls = [(0, CheckDevKey)], console_error = [] \<rparr>"
    using assms unfolding TestLinkReporter_def by (auto split: sum.splits option.splits)
  have "log_exact s" unfolding log_exact_def s by (simp add: logged_rejections_def log_entry_def)
  then show ?thesis using reporter_inv_init [OF assms] unfolding log_inv_def by blast
qed

lemma logged_rejections_settled:
  assumes all: "\<forall>j < length ps. \<exists>x. pstate (ps ! j) = Settled x"
    and ne: "ps \<noteq> []"
    and lst: "\<forall>e. pstate (last ps) \<noteq> Settled (Rejected e)"
  shows "logged_rejections ps = rejections ps"
proof -
  let ?g = "\<lambda>p. case pstate p of Settled (Rejected e) \<Rightarrow> [e] | _ \<Rightarrow> []"
  have e: "log_entry ps i = ?g (ps ! i)" if h: "Suc i < length ps" for i
  proof -
    obtain x where "pstate (ps ! Suc i) = Settled x" using all h by blast
    then show ?thesis by (simp add: log_entry_def split: pstate.splits settled.splits)
  qed
  have "map (log_entry ps) [0..<length ps - 1] = map (\<lambda>i. ?g (ps ! i)) [0..<length ps - 1]"
    using e by simp
  also have "\<dots> = map ?g (map (nth ps) [0..<length ps - 1])" by simp
  also have "map (nth ps) [0..<length ps - 1] = butlast ps"
    by (rule nth_equalityI) (simp_all add: nth_butlast)
  finally have a: "logged_rejections ps = concat (map ?g (butlast ps))"
    unfolding logged_rejections_def by simp
  have "rejections ps = concat (map ?g (butlast ps @ [last ps]))"
    using ne unfolding rejections_def by simp
  also have "\<dots> = concat (map ?g (butlast ps)) @ ?g (last ps)" by simp
  also have "?g (last ps) = []" using lst by (simp split: pstate.splits settled.splits)
  finally show ?thesis using a by simp
qed

lemma on_event_console_error: "console_error (on_event ev s) = console_error s"
proof -
  have f: "console_error (foldl (\<lambda>s c. chain_then_catch (g c) s) s ids) = console_error s"
    for g :: "string \<Rightarrow> task" and s ids
    by (induction ids arbitrary: s) simp_all
  show ?thesis
    by (cases ev) (simp_all add: on_event_def createTestPlan_def publishTestResults_def f)
qed

lemma respond_reject:
  assumes "i < length (promises s)" "pstate (promises s ! i) = Running f"
  shows "pstate (promises (respond i (Reject e) s) ! i) = Settled (Rejected e)
     \<and> console_error (respond i (Reject e) s) = console_error s"
proof -
  have "respond i (Reject e) s = resume i f (Reject e) s" using assms by (simp add: respond_def)
  moreover have "resume_pstate f (Reject e) = Settled (Rejected e)"
    by (cases f) (simp_all add: outcome_def)
  ultimately show ?thesis using assms(1) by (simp add: resume_effect)
qed

lemma react_catch_logs:
  assumes wf: "chain_wf s" and i: "i < length (promises s)"
    and k: "kind (promises s ! i) = Catch src" and w: "pstate (promises s ! i) = Waiting"
    and r: "pstate (promises s ! src) = Settled (Rejected e)"
  shows "console_error (react i s) = console_error s @ [e]
     \<and> pstate (promises (react i s) ! i) = Settled Fulfilled"
proof -
  have "i = Suc src" using catch_source [OF wf i k] .
  then have "src < length (promises s)" using i by simp
  then have "react i s = set_pstate i (Settled Fulfilled) (s\<lparr> console_error := console_error s @ [e] \<rparr>)"
    using i k w r by (simp add: react_def)
  then show ?thesis using i by (simp add: set_pstate_def)
qed

lemma step_log:
  assumes inv: "reporter_inv s"
  shows "console_error (step a s) = console_error s \<or>
     (\<exists>i src e. a = React i \<and> kind (promises s ! i) = Catch src \<and>
        pstate (promises s ! src) = Settled (Rejected e) \<and>
        console_error (step a s) = console_error s @ [e])"
proof (cases a)
  case (Emit ev)
  then show ?thesis by (simp add: step_def on_event_console_error)
next
  case (React i)
  show ?thesis
  proof (cases i s rule: react_cases)
    case idle
    then show ?thesis using React by (simp add: step_def)
  next
    case (start src t)
    then show ?thesis using React by (simp add: step_def)
  next
    case (skip src t e)
    then show ?thesis using React by (simp add: step_def set_pstate_def)
  next
    case (pass src)
    then show ?thesis using React by (simp add: step_def set_pstate_def)
  next
    case (log src e)
    have "console_error (step a s) = console_error s @ [e]"
      using React log(6) by (simp add: step_def set_pstate_def)
    then show ?thesis using React log(3,5) by blast
  qed
next
  case (Respond i r)
  show ?thesis
  proof (cases i r s rule: respond_cases)
    case idle
    then show ?thesis using Respond by (simp add: step_def)
  next
    case (resume f)
    then show ?thesis using Respond by (simp add: step_def resume_effect)
  qed
qed

lemma last_is_catch:
  assumes wf: "chain_wf s"
  shows "promiseChain s < length (promises s) \<and> promises s \<noteq> []
     \<and> last (promises s) = promises s ! promiseChain s
     \<and> (\<exists>src. kind (promises s ! promiseChain s) = Catch src)"
proof -
  have pc: "Suc (promiseChain s) = length (promises s)" "even (length (promises s))"
    using wf unfolding chain_wf_def by blast+
  have "even (Suc (promiseChain s))" unfolding pc(1) by (rule pc(2))
  then have odd: "odd (promiseChain s)" by simp
  have lt: "promiseChain s < length (promises s)" using pc(1) by linarith
  then have ne: "promises s \<noteq> []" by auto
  have "case kind (promises s ! promiseChain s) of Root \<Rightarrow> promiseChain s = 0
      | Then src t \<Rightarrow> promiseChain s = Suc src \<and> even (promiseChain s)
      | Catch src \<Rightarrow> promiseChain s = Suc src \<and> odd (promiseChain s)"
    using wf lt unfolding chain_wf_def by blast
  then have c: "\<exists>src. kind (promises s ! promiseChain s) = Catch src"
    using odd by (cases "kind (promises s ! promiseChain s)") auto
  have "last (promises s) = promises s ! (length (promises s) - 1)" using ne by (rule last_conv_nth)
  also have "length (promises s) - 1 = promiseChain s" using pc(1) by linarith
  finally show ?thesis using lt ne c by blast
qed

lemma drained_log:
  assumes li: "log_inv s" and all: "\<forall>j < length (promises s). \<exists>x. pstate (promises s ! j) = Settled x"
  shows "console_error s = rejections (promises s)"
proof -
  have inv: "reporter_inv s" and le: "log_exact s" using li unfolding log_inv_def by blast+
  have wf: "chain_wf s" and ck: "catch_ok (promises s)"
    using inv unfolding reporter_inv_def chain_inv_def by blast+
  obtain src where l: "promiseChain s < length (promises s)" "promises s \<noteq> []"
    "last (promises s) = promises s ! promiseChain s"
    "kind (promises s ! promiseChain s) = Catch src"
    using last_is_catch [OF wf] by blast
  have "pstate (last (promises s)) = Waiting \<or> pstate (last (promises s)) = Settled Fulfilled"
    unfolding l(3) using catch_okD [OF ck l(1,4)] .
  then have "\<forall>e. pstate (last (promises s)) \<noteq> Settled (Rejected e)" by auto
  then show ?thesis
    using le logged_rejections_settled [OF all l(2)] unfolding log_exact_def by simp
qed

text \<open>
  Claim C7. After any sequence of events, reaction jobs and answers: a \<open>catch\<close> promise,
  \<open>this.promiseChain\<close> among them, is never rejected; the rejection of a promise whose
  \<open>catch\<close> has settled is in the \<open>console.error\<close> log; a queued function whose turn has
  come is started, never skipped, and every one that has left \<open>Waiting\<close> has issued its first
  call. From any such state, letting every promise react and answering each of its calls
  (with rejections or anything else) settles every promise, every queued function has
  issued a call, and the log is the list of the rejections of the promises, in the order
  of the chain. The log is exact at every moment: it holds, in the order of the chain, one
  line for each promise that is rejected and whose \<open>catch\<close> has settled, so as many equal
  lines as there are equal rejections. A call that the client rejects rejects the promise
  of the function that awaits it, whichever call it is, and logs nothing yet; the reaction
  of the \<open>catch\<close> behind a rejected promise appends that rejection to the log, once, and
  fulfils the \<open>catch\<close>; and no other step writes to the log.
\<close>
theorem rejections_contained:
  assumes "TestLinkReporter parse_url (Some ro) = Inr s0"
  shows
    "(\<forall>i < length (promises (run acts s0)). \<forall>src.
        kind (promises (run acts s0) ! i) = Catch src \<longrightarrow>
        pstate (promises (run acts s0) ! i) = Waiting \<or>
        pstate (promises (run acts s0) ! i) = Settled Fulfilled)
     \<and> (\<exists>src. kind (promises (run acts s0) ! promiseChain (run acts s0)) = Catch src)
     \<and> (\<forall>i e. Suc i < length (promises (run acts s0)) \<and>
            pstate (promises (run acts s0) ! i) = Settled (Rejected e) \<and>
            (\<exists>x. pstate (promises (run acts s0) ! Suc i) = Settled x) \<longrightarrow>
            e \<in> set (console_error (run acts s0)))
     \<and> (\<forall>i src t x. i < length (promises (run acts s0)) \<and>
            kind (promises (run acts s0) ! i) = Then src t \<and>
            pstate (promises (run acts s0) ! i) = Waiting \<and>
            pstate (promises (run acts s0) ! src) = Settled x \<longrightarrow>
            react i (run acts s0) = start_task i t (run acts s0))
     \<and> (\<forall>i src t. i < length (promises (run acts s0)) \<and>
            kind (promises (run acts s0) ! i) = Then src t \<and>
            pstate (promises (run acts s0) ! i) \<noteq> Waiting \<longrightarrow>
            i \<in> fst ` set (calls (run acts s0)))
     \<and> (\<forall>rs. (\<forall>i. 3 \<le> length (rs i)) \<longrightarrow>
            (\<forall>p \<in> set (promises (run (acts @ drain (length (promises (run acts s0))) rs) s0)).
               \<exists>x. pstate p = Settled x) \<and>
            queued_tasks (run (acts @ drain (length (promises (run acts s0))) rs) s0)
              = queued_tasks (run acts s0) \<and>
            (\<forall>i src t. i < length (promises (run acts s0)) \<and>
               kind (promises (run acts s0) ! i) = Then src t \<longrightarrow>
               i \<in> fst ` set (calls (run (acts @ drain (length (promises (run acts s0))) rs) s0))) \<and>
            console_error (run (acts @ drain (length (promises (run acts s0))) rs) s0)
              = rejections (promises (run (acts @ drain (length (promises (run acts s0))) rs) s0)))
     \<and> console_error (run acts s0) = logged_rejections (promises (run acts s0))
     \<and> (\<forall>i f e. i < length (promises (run acts s0)) \<and>
            pstate (promises (run acts s0) ! i) = Running f \<longrightarrow>
            pstate (promises (run (acts @ [Respond i (Reject e)]) s0) ! i) = Settled (Rejected e) \<and>
            console_error (run (acts @ [Respond i (Reject e)]) s0) = console_error (run acts s0))
     \<and> (\<forall>i src e. i < length (promises (run acts s0)) \<and>
            kind (promises (run acts s0) ! i) = Catch src \<and>
            pstate (promises (run acts s0) ! i) = Waiting \<and>
            pstate (promises (run acts s0) ! src) = Settled (Rejected e) \<longrightarrow>
            console_error (run (acts @ [React i]) s0) = console_error (run acts s0) @ [e] \<and>
            pstate (promises (run (acts @ [React i]) s0) ! i) = Settled Fulfilled)
     \<and> (\<forall>a. console_error (run (acts @ [a]) s0) = console_error (run acts s0) \<or>
            (\<exists>i src e. a = React i \<and> kind (promises (run acts s0) ! i) = Catch src \<and>
               pstate (promises (run acts s0) ! src) = Settled (Rejected e) \<and>
               console_error (run (acts @ [a]) s0) = console_error (run acts s0) @ [e]))"
proof -
  let ?s = "run acts s0"
  have li: "log_inv ?s" using log_inv_run [OF log_inv_init [OF assms]] .
  have inv: "reporter_inv ?s" using reporter_inv_run [OF reporter_inv_init [OF assms]] .
  then have ci: "chain_inv ?s" and wf: "chain_wf ?s" and ck: "catch_ok (promises ?s)"
    and co: "calls_ok ?s" and lg: "logged ?s"
    unfolding reporter_inv_def chain_inv_def by blast+
  have 1: "\<forall>i < length (promises ?s). \<forall>src. kind (promises ?s ! i) = Catch src \<longrightarrow>
      pstate (promises ?s ! i) = Waiting \<or> pstate (promises ?s ! i) = Settled Fulfilled"
    using ck unfolding catch_ok_def by blast
  have 2: "\<exists>src. kind (promises ?s ! promiseChain ?s) = Catch src"
  proof -
    have pc: "Suc (promiseChain ?s) = length (promises ?s)" "even (length (promises ?s))"
      using wf unfolding chain_wf_def by blast+
    have "even (Suc (promiseChain ?s))" unfolding pc(1) by (rule pc(2))
    then have "odd (promiseChain ?s)" by simp
    moreover have "promiseChain ?s < length (promises ?s)" using pc(1) by linarith
    ultimately have "promiseChain ?s < length (promises ?s)" "odd (promiseChain ?s)" by blast+
    moreover have "case kind (promises ?s ! promiseChain ?s) of Root \<Rightarrow> promiseChain ?s = 0
        | Then src t \<Rightarrow> promiseChain ?s = Suc src \<and> even (promiseChain ?s)
        | Catch src \<Rightarrow> promiseChain ?s = Suc src \<and> odd (promiseChain ?s)"
      using wf calculation(1) unfolding chain_wf_def by blast
    ultimately show ?thesis by (cases "kind (promises ?s ! promiseChain ?s)") auto
  qed
  have 3: "\<forall>i e. Suc i < length (promises ?s) \<and> pstate (promises ?s ! i) = Settled (Rejected e) \<and>
      (\<exists>x. pstate (promises ?s ! Suc i) = Settled x) \<longrightarrow> e \<in> set (console_error ?s)"
    using lg unfolding logged_def by blast
  have 4: "react i ?s = start_task i t ?s"
    if "i < length (promises ?s)" "kind (promises ?s ! i) = Then src t"
      "pstate (promises ?s ! i) = Waiting" "pstate (promises ?s ! src) = Settled x" for i src t x
  proof -
    have "x = Fulfilled" using then_source_fulfilled [OF ci that(1,2,4)] .
    moreover have "src < length (promises ?s)" using then_source [OF wf that(1,2)] that(1) by simp
    ultimately show ?thesis using that by (simp add: react_def)
  qed
  have 5: "i \<in> fst ` set (calls ?s)"
    if "i < length (promises ?s)" "kind (promises ?s ! i) = Then src t"
      "pstate (promises ?s ! i) \<noteq> Waiting" for i src t
    using co that unfolding calls_ok_def by auto
  have 6: "(\<forall>p \<in> set (promises (run (acts @ drain (length (promises ?s)) rs) s0)).
               \<exists>x. pstate p = Settled x) \<and>
            queued_tasks (run (acts @ drain (length (promises ?s)) rs) s0) = queued_tasks ?s \<and>
            (\<forall>i src t. i < length (promises ?s) \<and> kind (promises ?s ! i) = Then src t \<longrightarrow>
               i \<in> fst ` set (calls (run (acts @ drain (length (promises ?s)) rs) s0))) \<and>
            console_error (run (acts @ drain (length (promises ?s)) rs) s0)
              = rejections (promises (run (acts @ drain (length (promises ?s)) rs) s0))"
    if rs: "\<forall>i. 3 \<le> length (rs i)" for rs
  proof -
    let ?d = "run (drain (length (promises ?s)) rs) ?s"
    have d: "reporter_inv ?d" "length (promises ?d) = length (promises ?s)"
      "\<forall>j < length (promises ?s). \<exists>x. pstate (promises ?d ! j) = Settled x"
      using drain_settles [OF inv rs, of "length (promises ?s)"] by simp_all
    have a: "\<forall>p \<in> set (promises ?d). \<exists>x. pstate p = Settled x"
      using d(2,3) by (auto simp: in_set_conv_nth)
    have q: "queued_tasks ?d = queued_tasks ?s"
      using queued_tasks_run [of "drain (length (promises ?s)) rs" ?s]
      by (simp add: expected_queue_drain)
    have k: "kind (promises ?d ! i) = kind (promises ?s ! i)" if "i < length (promises ?s)" for i
      using kind_run [OF that] by blast
    have c: "i \<in> fst ` set (calls ?d)"
      if "i < length (promises ?s)" "kind (promises ?s ! i) = Then src t" for i src t
    proof -
      have "pstate (promises ?d ! i) \<noteq> Waiting" using d(3) that(1) by auto
      moreover have "kind (promises ?d ! i) = Then src t" using k that by simp
      ultimately show ?thesis using d(1,2) that(1) unfolding reporter_inv_def calls_ok_def by auto
    qed
    have l: "console_error ?d = rejections (promises ?d)"
    proof (rule drained_log)
      show "log_inv ?d" using li by (rule log_inv_run)
      show "\<forall>j < length (promises ?d). \<exists>x. pstate (promises ?d ! j) = Settled x"
        using d(2,3) by simp
    qed
    show ?thesis unfolding run_append using a q c l by blast
  qed
  have 7: "console_error ?s = logged_rejections (promises ?s)"
    using li unfolding log_inv_def log_exact_def by blast
  have 8: "pstate (promises (run (acts @ [Respond i (Reject e)]) s0) ! i) = Settled (Rejected e) \<and>
      console_error (run (acts @ [Respond i (Reject e)]) s0) = console_error ?s"
    if "i < length (promises ?s)" "pstate (promises ?s ! i) = Running f" for i f e
    unfolding run_append using respond_reject [OF that] by (simp add: step_def)
  have 9: "console_error (run (acts @ [React i]) s0) = console_error ?s @ [e] \<and>
      pstate (promises (run (acts @ [React i]) s0) ! i) = Settled Fulfilled"
    if "i < length (promises ?s)" "kind (promises ?s ! i) = Catch src"
      "pstate (promises ?s ! i) = Waiting" "pstate (promises ?s ! src) = Settled (Rejected e)"
    for i src e
    unfolding run_append using react_catch_logs [OF wf that] by (simp add: step_def)
  have 10: "console_error (run (acts @ [a]) s0) = console_error ?s \<or>
      (\<exists>i src e. a = React i \<and> kind (promises ?s ! i) = Catch src \<and>
         pstate (promises ?s ! src) = Settled (Rejected e) \<and>
         console_error (run (acts @ [a]) s0) = console_error ?s @ [e])" for a
    unfolding run_append using step_log [OF inv, of a] by simp
  have c4: "\<forall>i src t x. i < length (promises ?s) \<and> kind (promises ?s ! i) = Then src t \<and>
      pstate (promises ?s ! i) = Waiting \<and> pstate (promises ?s ! src) = Settled x \<longrightarrow>
      react i ?s = start_task i t ?s"
    using 4 by blast
  have c5: "\<forall>i src t. i < length (promises ?s) \<and> kind (promises ?s ! i) = Then src t \<and>
      pstate (promises ?s ! i) \<noteq> Waiting \<longrightarrow> i \<in> fst ` set (calls ?s)"
    using 5 by blast
  have c6: "\<forall>rs. (\<forall>i. 3 \<le> length (rs i)) \<longrightarrow>
      (\<forall>p \<in> set (promises (run (acts @ drain (length (promises ?s)) rs) s0)).
         \<exists>x. pstate p = Settled x) \<and>
      queued_tasks (run (acts @ drain (length (promises ?s)) rs) s0) = queued_tasks ?s \<and>
      (\<forall>i src t. i < length (promises ?s) \<and> kind (promises ?s ! i) = Then src t \<longrightarrow>
         i \<in> fst ` set (calls (run (acts @ drain (length (promises ?s)) rs) s0))) \<and>
      console_error (run (acts @ drain (length (promises ?s)) rs) s0)
        = rejections (promises (run (acts @ drain (length (promises ?s)) rs) s0))"
    using 6 by (intro allI impI)
  have c8: "\<forall>i f e. i < length (promises ?s) \<and> pstate (promises ?s ! i) = Running f \<longrightarrow>
      pstate (promises (run (acts @ [Respond i (Reject e)]) s0) ! i) = Settled (Rejected e) \<and>
      console_error (run (acts @ [Respond i (Reject e)]) s0) = console_error ?s"
    using 8 by blast
  have c9: "\<forall>i src e. i < length (promises ?s) \<and> kind (promises ?s ! i) = Catch src \<and>
      pstate (promises ?s ! i) = Waiting \<and> pstate (promises ?s ! src) = Settled (Rejected e) \<longrightarrow>
      console_error (run (acts @ [React i]) s0) = console_error ?s @ [e] \<and>
      pstate (promises (run (acts @ [React i]) s0) ! i) = Settled Fulfilled"
    using 9 by blast
  have c10: "\<forall>a. console_error (run (acts @ [a]) s0) = console_error ?s \<or>
      (\<exists>i src e. a = React i \<and> kind (promises ?s ! i) = Catch src \<and>
         pstate (promises ?s ! src) = Settled (Rejected e) \<and>
         console_error (run (acts @ [a]) s0) = console_error ?s @ [e])"
    using 10 by (intro allI)
  show ?thesis
    by (rule conjI [OF 1 conjI [OF 2 conjI [OF 3 conjI [OF c4 conjI [OF c5 conjI [OF c6
          conjI [OF 7 conjI [OF c8 conjI [OF c9 c10]]]]]]]]])
qed

subsection \<open>A run with automatic provisioning\<close>

definition demo_test :: mocha_test where
  "demo_test = \<lparr> test_title = ''does X [XPJ-5]'', state = STATE_PASSED, duration = Some (Finite 1200), err = None \<rparr>"

definition demo_s0 :: reporter where
  "demo_s0 = \<lparr> reporterOptions = demo_options,
               testlink = \<lparr> conn_host = ''localhost'', conn_port = ''80'', conn_secure = False,
                             conn_apiKey = JStr ''key'' \<rparr>,
               run_begin_armed = True,
               this_testplanid = JUndefined,
               this_buildid = JUndefined,
               this_testproject = None,
               promiseChain = 1,
               promises = [\<lparr> kind = Root, pstate = Running AwaitCheckDevKey \<rparr>,
                           \<lparr> kind = Catch 0, pstate = Waiting \<rparr>],
               calls = [(0, CheckDevKey)],
               console_error = [] \<rparr>"

definition demo_enqueue :: "action list" where
  "demo_enqueue = [Emit EVENT_RUN_BEGIN, Emit (EVENT_TEST_PASS demo_test)]"

definition demo_replies :: "action list" where
  "demo_replies =
     [Respond 0 (Resolve []), React 1, React 2,
      Respond 2 (Resolve [\<lparr> obj_id = JStr ''42'', obj_prefix = JUndefined \<rparr>]),
      Respond 2 (Resolve [\<lparr> obj_id = JStr ''7'', obj_prefix = JUndefined \<rparr>]),
      Respond 2 (Resolve [\<lparr> obj_id = JStr ''1'', obj_prefix = JStr ''ABC'' \<rparr>,
                          \<lparr> obj_id = JStr ''3'', obj_prefix = JStr ''XPJ'' \<rparr>]),
      React 3, React 4, Respond 4 (Resolve []), Respond 4 (Reject (ClientError ''timeout'')),
      React 5]"

definition demo_record :: tc_result where
  "demo_record = \<lparr> testcaseexternalid = ''XPJ-5'', testplanid = JStr ''42'', status = PASSED,
                   buildid = JStr ''7'',
                   execduration = js_div (Finite 1200) (Finite 60000), tc_notes = Some [], steps = [] \<rparr>"

lemma demo_init: "TestLinkReporter demo_url (Some demo_options) = Inr demo_s0"
  by (simp add: TestLinkReporter_def validateReporterOptions_def demo_opt
      establishTestLinkConnection_def demo_url_def demo_s0_def)

lemma demo_ids: "titleToCaseIds ''does X [XPJ-5]'' = [''XPJ-5'']"
  by code_simp

lemmas demo_eval =
  step_def on_event_def createTestPlan_def publishTestResults_def chain_then_catch_def
  react_def respond_def resume_def start_task_def set_pstate_def issue_def apply_gen_def
  tcOptions_def outcome_def demo_opt demo_ids demo_test_def Let_def

lemma demo_enqueued:
  "run demo_enqueue demo_s0 =
     demo_s0\<lparr> run_begin_armed := False, promiseChain := 5,
       promises :=
         [\<lparr> kind = Root, pstate = Running AwaitCheckDevKey \<rparr>,
          \<lparr> kind = Catch 0, pstate = Waiting \<rparr>,
          \<lparr> kind = Then 1 (Provision demo_options), pstate = Waiting \<rparr>,
          \<lparr> kind = Catch 2, pstate = Waiting \<rparr>,
          \<lparr> kind = Then 3 (Publish ''XPJ-5'' (TcGen (Some (Finite 1200)) None)), pstate = Waiting \<rparr>,
          \<lparr> kind = Catch 4, pstate = Waiting \<rparr>] \<rparr>"
  by (simp add: demo_enqueue_def demo_s0_def demo_eval)

lemma demo_final:
  "run (demo_enqueue @ demo_replies) demo_s0 =
     demo_s0\<lparr> run_begin_armed := False, promiseChain := 5,
       this_testplanid := JStr ''42'', this_buildid := JStr ''7'',
       this_testproject := Some \<lparr> obj_id = JStr ''3'', obj_prefix = JStr ''XPJ'' \<rparr>,
       promises :=
         [\<lparr> kind = Root, pstate = Settled Fulfilled \<rparr>,
          \<lparr> kind = Catch 0, pstate = Settled Fulfilled \<rparr>,
          \<lparr> kind = Then 1 (Provision demo_options), pstate = Settled Fulfilled \<rparr>,
          \<lparr> kind = Catch 2, pstate = Settled Fulfilled \<rparr>,
          \<lparr> kind = Then 3 (Publish ''XPJ-5'' (TcGen (Some (Finite 1200)) None)),
            pstate = Settled (Rejected (ClientError ''timeout'')) \<rparr>,
          \<lparr> kind = Catch 4, pstate = Settled Fulfilled \<rparr>],
       calls := [(0, CheckDevKey), (2, CreateTestPlan (JStr ''XPJ'')), (2, CreateBuild (JStr ''42'')),
                 (2, GetProjects),
                 (4, AddTestCaseToTestPlan (JStr ''3'') (JStr ''42'') ''XPJ-5'' 1),
                 (4, ReportTCResult demo_record)],
       console_error := [ClientError ''timeout''] \<rparr>"
  unfolding run_append demo_enqueued
  by (simp add: demo_replies_def demo_s0_def demo_record_def demo_eval)


text \<open>The theorem of claim C1 at a run that provisions a plan and publishes one passed test.\<close>
theorem promise_chain_order_witness:
  "(4, ReportTCResult demo_record) \<in> set (calls (run (demo_enqueue @ demo_replies) demo_s0))
   \<and> pstate (promises (run (demo_enqueue @ demo_replies) demo_s0) ! 4) \<noteq> Waiting
   \<and> (\<exists>x. pstate (promises (run (demo_enqueue @ demo_replies) demo_s0) ! 3) = Settled x)
   \<and> sorted (map fst (calls (run (demo_enqueue @ demo_replies) demo_s0)))
   \<and> queued_tasks (run (demo_enqueue @ demo_replies) demo_s0)
        = [Provision demo_options, Publish ''XPJ-5'' (TcGen (Some (Finite 1200)) None)]
   \<and> map snd (calls (run (demo_enqueue @ demo_replies) demo_s0))
        = [CheckDevKey, CreateTestPlan (JStr ''XPJ''), CreateBuild (JStr ''42''), GetProjects,
           AddTestCaseToTestPlan (JStr ''3'') (JStr ''42'') ''XPJ-5'' 1, ReportTCResult demo_record]"
proof -
  let ?s = "run (demo_enqueue @ demo_replies) demo_s0"
  note order = promise_chain_order [OF demo_init, of "demo_enqueue @ demo_replies"]
  note o_queue = order [THEN conjunct2, THEN conjunct2, THEN conjunct1]
  note o_seq = order [THEN conjunct2, THEN conjunct2, THEN conjunct2, THEN conjunct1]
  note o_sorted = order [THEN conjunct2, THEN conjunct2, THEN conjunct2, THEN conjunct2,
      THEN conjunct2, THEN conjunct1]
  note o_calls = order [THEN conjunct2, THEN conjunct2, THEN conjunct2, THEN conjunct2,
      THEN conjunct2, THEN conjunct2]
  have mem: "(4, ReportTCResult demo_record) \<in> set (calls ?s)" by (simp add: demo_final)
  have nw: "4 < length (promises ?s) \<and> pstate (promises ?s ! 4) \<noteq> Waiting \<and>
      call_of (kind (promises ?s ! 4)) (ReportTCResult demo_record)"
    using o_calls [rule_format, OF mem] .
  have "(3::nat) < 4 \<and> 4 < length (promises ?s) \<and> pstate (promises ?s ! 4) \<noteq> Waiting"
    using nw by simp
  then have st: "\<exists>x. pstate (promises ?s ! 3) = Settled x" by (rule o_seq [rule_format])
  have q: "queued_tasks ?s = [Provision demo_options, Publish ''XPJ-5'' (TcGen (Some (Finite 1200)) None)]"
    unfolding o_queue
    by (simp add: demo_enqueue_def demo_replies_def demo_opt demo_ids demo_test_def)
  have m: "map snd (calls ?s)
        = [CheckDevKey, CreateTestPlan (JStr ''XPJ''), CreateBuild (JStr ''42''), GetProjects,
           AddTestCaseToTestPlan (JStr ''3'') (JStr ''42'') ''XPJ-5'' 1, ReportTCResult demo_record]"
    by (simp add: demo_final)
  show ?thesis using mem nw st q o_sorted m by (intro conjI) simp_all
qed

definition demo_down :: "nat \<Rightarrow> response list" where
  "demo_down i = replicate 3 (Reject (ClientError ''down''))"

text \<open>A run in which the client rejects every call with the same error.\<close>

definition demo_rejects :: "action list" where
  "demo_rejects =
     [Respond 0 (Reject (ClientError ''down'')), React 1,
      React 2, Respond 2 (Reject (ClientError ''down'')), React 3,
      React 4, Respond 4 (Reject (ClientError ''down''))]"

lemma demo_rejected:
  "run (demo_enqueue @ demo_rejects) demo_s0 =
     demo_s0\<lparr> run_begin_armed := False, promiseChain := 5,
       promises :=
         [\<lparr> kind = Root, pstate = Settled (Rejected (ClientError ''down'')) \<rparr>,
          \<lparr> kind = Catch 0, pstate = Settled Fulfilled \<rparr>,
          \<lparr> kind = Then 1 (Provision demo_options),
            pstate = Settled (Rejected (ClientError ''down'')) \<rparr>,
          \<lparr> kind = Catch 2, pstate = Settled Fulfilled \<rparr>,
          \<lparr> kind = Then 3 (Publish ''XPJ-5'' (TcGen (Some (Finite 1200)) None)),
            pstate = Settled (Rejected (ClientError ''down'')) \<rparr>,
          \<lparr> kind = Catch 4, pstate = Waiting \<rparr>],
       calls := [(0, CheckDevKey), (2, CreateTestPlan (JStr ''XPJ'')),
                 (4, ReportTCResult (demo_record\<lparr> testplanid := JUndefined,
                                                    buildid := JUndefined \<rparr>))],
       console_error := [ClientError ''down'', ClientError ''down''] \<rparr>"
  unfolding run_append demo_enqueued
  by (simp add: demo_rejects_def demo_s0_def demo_record_def demo_eval)

text \<open>A run that stops where the function that provisions the plan awaits \<open>createBuild\<close>.\<close>

definition demo_awaits_build :: "action list" where
  "demo_awaits_build =
     [Respond 0 (Resolve []), React 1, React 2,
      Respond 2 (Resolve [\<lparr> obj_id = JStr ''42'', obj_prefix = JUndefined \<rparr>])]"

lemma demo_awaiting_build:
  "promises (run (demo_enqueue @ demo_awaits_build) demo_s0) =
     [\<lparr> kind = Root, pstate = Settled Fulfilled \<rparr>,
      \<lparr> kind = Catch 0, pstate = Settled Fulfilled \<rparr>,
      \<lparr> kind = Then 1 (Provision demo_options), pstate = Running (AwaitCreateBuild demo_options) \<rparr>,
      \<lparr> kind = Catch 2, pstate = Waiting \<rparr>,
      \<lparr> kind = Then 3 (Publish ''XPJ-5'' (TcGen (Some (Finite 1200)) None)), pstate = Waiting \<rparr>,
      \<lparr> kind = Catch 4, pstate = Waiting \<rparr>]"
  unfolding run_append demo_enqueued
  by (simp add: demo_awaits_build_def demo_s0_def demo_eval)

text \<open>
  The theorem of claim C7 at the run of the previous witness, whose result submission is
  rejected; at a run in which the client rejects every call with the same error, whose log
  holds that error once for each rejected call; and at a run in which \<open>createBuild\<close> is
  rejected.
\<close>
theorem rejections_contained_witness:
  "pstate (promises (run (demo_enqueue @ demo_replies) demo_s0) ! 4)
      = Settled (Rejected (ClientError ''timeout''))
   \<and> ClientError ''timeout'' \<in> set (console_error (run (demo_enqueue @ demo_replies) demo_s0))
   \<and> pstate (promises (run (demo_enqueue @ demo_replies) demo_s0) ! 5) = Settled Fulfilled
   \<and> 4 \<in> fst ` set (calls (run (demo_enqueue @ drain 6 demo_down) demo_s0))
   \<and> list_all (\<lambda>p. \<exists>x. pstate p = Settled x)
        (promises (run (demo_enqueue @ drain 6 demo_down) demo_s0))
   \<and> console_error (run (demo_enqueue @ drain 6 demo_down) demo_s0)
        = rejections (promises (run (demo_enqueue @ drain 6 demo_down) demo_s0))
   \<and> logged_rejections (promises (run (demo_enqueue @ demo_rejects) demo_s0))
        = [ClientError ''down'', ClientError ''down'']
   \<and> console_error (run (demo_enqueue @ demo_rejects) demo_s0)
        = [ClientError ''down'', ClientError ''down'']
   \<and> console_error (run ((demo_enqueue @ demo_rejects) @ [React 5]) demo_s0)
        = [ClientError ''down'', ClientError ''down'', ClientError ''down'']
   \<and> pstate (promises (run ((demo_enqueue @ demo_rejects) @ [React 5]) demo_s0) ! 5)
        = Settled Fulfilled
   \<and> pstate (promises (run ((demo_enqueue @ demo_awaits_build) @
          [Respond 2 (Reject (ClientError ''down''))]) demo_s0) ! 2)
        = Settled (Rejected (ClientError ''down''))"
proof -
  let ?s = "run (demo_enqueue @ demo_replies) demo_s0"
  note c = rejections_contained [OF demo_init, of "demo_enqueue @ demo_replies"]
  note c_logged = c [THEN conjunct2, THEN conjunct2, THEN conjunct1]
  have a: "pstate (promises ?s ! 4) = Settled (Rejected (ClientError ''timeout''))"
    "pstate (promises ?s ! 5) = Settled Fulfilled" "Suc 4 < length (promises ?s)"
    by (simp_all add: demo_final)
  have "Suc 4 < length (promises ?s) \<and>
      pstate (promises ?s ! 4) = Settled (Rejected (ClientError ''timeout'')) \<and>
      (\<exists>x. pstate (promises ?s ! Suc 4) = Settled x)"
    using a by simp
  then have b: "ClientError ''timeout'' \<in> set (console_error ?s)"
    by (rule c_logged [rule_format])
  note d = rejections_contained [OF demo_init, of demo_enqueue]
  note d_drain = d [THEN conjunct2, THEN conjunct2, THEN conjunct2, THEN conjunct2,
      THEN conjunct2, THEN conjunct1, rule_format, of demo_down]
  have len: "length (promises (run demo_enqueue demo_s0)) = 6" by (simp add: demo_enqueued)
  have k: "4 < length (promises (run demo_enqueue demo_s0)) \<and>
      kind (promises (run demo_enqueue demo_s0) ! 4)
        = Then 3 (Publish ''XPJ-5'' (TcGen (Some (Finite 1200)) None))"
    by (simp add: demo_enqueued)
  have rs: "\<forall>i. 3 \<le> length (demo_down i)" by (simp add: demo_down_def)
  note e = d_drain [OF rs [rule_format], unfolded len]
  have e1: "\<forall>p \<in> set (promises (run (demo_enqueue @ drain 6 demo_down) demo_s0)).
        \<exists>x. pstate p = Settled x"
    using e by (rule conjunct1)
  have e2: "4 \<in> fst ` set (calls (run (demo_enqueue @ drain 6 demo_down) demo_s0))"
    using e [THEN conjunct2, THEN conjunct2, THEN conjunct1, rule_format, of 4] k [unfolded len]
    by blast
  have e3: "console_error (run (demo_enqueue @ drain 6 demo_down) demo_s0)
        = rejections (promises (run (demo_enqueue @ drain 6 demo_down) demo_s0))"
    using e [THEN conjunct2, THEN conjunct2, THEN conjunct2] .
  let ?r = "run (demo_enqueue @ demo_rejects) demo_s0"
  note r = rejections_contained [OF demo_init, of "demo_enqueue @ demo_rejects"]
  note r_tail = r [THEN conjunct2, THEN conjunct2, THEN conjunct2, THEN conjunct2,
      THEN conjunct2, THEN conjunct2]
  have f1: "logged_rejections (promises ?r) = [ClientError ''down'', ClientError ''down'']"
    by (simp add: demo_rejected logged_rejections_def log_entry_def)
  have f2: "console_error ?r = [ClientError ''down'', ClientError ''down'']"
    using r_tail [THEN conjunct1] f1 by simp
  have g: "5 < length (promises ?r) \<and> kind (promises ?r ! 5) = Catch 4 \<and>
      pstate (promises ?r ! 5) = Waiting \<and>
      pstate (promises ?r ! 4) = Settled (Rejected (ClientError ''down''))"
    by (simp add: demo_rejected)
  note h = r_tail [THEN conjunct2, THEN conjunct2, THEN conjunct1, rule_format, OF g]
  have h1: "console_error (run ((demo_enqueue @ demo_rejects) @ [React 5]) demo_s0)
        = [ClientError ''down'', ClientError ''down'', ClientError ''down'']"
    using h [THEN conjunct1] f2 by simp
  have h2: "pstate (promises (run ((demo_enqueue @ demo_rejects) @ [React 5]) demo_s0) ! 5)
        = Settled Fulfilled"
    using h [THEN conjunct2] .
  note w = rejections_contained [OF demo_init, of "demo_enqueue @ demo_awaits_build"]
  have v: "2 < length (promises (run (demo_enqueue @ demo_awaits_build) demo_s0)) \<and>
      pstate (promises (run (demo_enqueue @ demo_awaits_build) demo_s0) ! 2)
        = Running (AwaitCreateBuild demo_options)"
    by (simp add: demo_awaiting_build)
  have w1: "pstate (promises (run ((demo_enqueue @ demo_awaits_build) @
          [Respond 2 (Reject (ClientError ''down''))]) demo_s0) ! 2)
        = Settled (Rejected (ClientError ''down''))"
    using w [THEN conjunct2, THEN conjunct2, THEN conjunct2, THEN conjunct2,
        THEN conjunct2, THEN conjunct2, THEN conjunct2, THEN conjunct1, rule_format, OF v,
        THEN conjunct1] .
  show ?thesis using a b e1 e2 e3 f1 f2 h1 h2 w1 by (simp add: list_all_iff)
qed

subsection \<open>Provisioning and the registration of cases\<close>

fun is_add :: "rpc_call \<Rightarrow> bool" where
  "is_add (AddTestCaseToTestPlan pr pl c v) = True"
| "is_add c = False"

definition auto_provision :: "reporter \<Rightarrow> bool" where
  "auto_provision s \<longleftrightarrow> (\<exists>ro. Provision ro \<in> set (queued_tasks s))"

definition provision_ok :: "reporter \<Rightarrow> bool" where
  "provision_ok s \<longleftrightarrow>
     (this_testproject s \<noteq> None \<longrightarrow> auto_provision s) \<and>
     (\<forall>i c. (i, c) \<in> set (calls s) \<and> is_add c \<longrightarrow> auto_provision s) \<and>
     (\<forall>ro. Provision ro \<in> set (queued_tasks s) \<longrightarrow>
        ro = reporterOptions s \<and> \<not> truthy (opt ro ''testplanid''))"

definition awaiting_add_ok :: "reporter \<Rightarrow> bool" where
  "awaiting_add_ok s \<longleftrightarrow>
     (\<forall>i < length (promises s). \<forall>options.
        pstate (promises s ! i) = Running (AwaitAddTestCase options) \<longrightarrow>
        calls s \<noteq> [] \<and>
        (\<exists>pr. last (calls s) =
           (i, AddTestCaseToTestPlan pr (testplanid options) (testcaseexternalid options) 1)))"

definition publish_inv :: "reporter \<Rightarrow> bool" where
  "publish_inv s \<longleftrightarrow> reporter_inv s \<and> provision_ok s \<and> awaiting_add_ok s"

lemma task_in_queue:
  assumes "i < length (promises s)" "kind (promises s ! i) = Then src t"
  shows "t \<in> set (queued_tasks s)"
proof -
  have "promises s ! i \<in> set (promises s)" using assms(1) by simp
  moreover have "t \<in> set (task_of (kind (promises s ! i)))" using assms(2) by simp
  ultimately show ?thesis unfolding queued_tasks_def by auto
qed

lemma apply_gen_ids [simp]:
  "testplanid (apply_gen s g c) = this_testplanid s"
  "buildid (apply_gen s g c) = this_buildid s"
  by (cases g; simp add: apply_gen_def suiteOptions_def tcOptions_def)+

lemma start_call_add: "is_add (start_call s t) \<Longrightarrow> this_testproject s \<noteq> None"
  by (cases t; cases "this_testproject s"; simp add: start_call_def)

lemma resume_calls_not_add: "c \<in> set (resume_calls f r) \<Longrightarrow> \<not> is_add c"
  by (cases "(f, r)" rule: resume_calls.cases) auto

lemma resume_pstate_not_add: "resume_pstate f r \<noteq> Running (AwaitAddTestCase options)"
  by (cases "(f, r)" rule: resume_pstate.cases) auto

lemma start_frame_add:
  assumes "start_frame s t = AwaitAddTestCase options"
  shows "\<exists>pr. start_call s t =
      AddTestCaseToTestPlan pr (testplanid options) (testcaseexternalid options) 1"
proof (cases t)
  case (Publish c g)
  then show ?thesis using assms
    by (cases "this_testproject s") (auto simp: start_frame_def start_call_def)
next
  case (Provision ro)
  then show ?thesis using assms by (simp add: start_frame_def)
qed

lemma resume_project:
  "this_testproject (resume i f r s) =
     (case f of
        AwaitGetProjects ro \<Rightarrow>
          (case r of Resolve projects \<Rightarrow> find (\<lambda>p. obj_prefix p = opt ro ''prefix'') projects
           | Reject e \<Rightarrow> this_testproject s)
      | _ \<Rightarrow> this_testproject s)"
  by (cases f; cases r; simp add: resume_def split: list.splits)

lemma react_project [simp]: "this_testproject (react i s) = this_testproject s"
  by (cases i s rule: react_cases) simp_all

lemma react_calls:
  "calls (react i s) = calls s \<or>
   (\<exists>src t. i < length (promises s) \<and> pstate (promises s ! i) = Waiting \<and>
      kind (promises s ! i) = Then src t \<and> react i s = start_task i t s \<and>
      calls (react i s) = calls s @ [(i, start_call s t)])"
  by (cases i s rule: react_cases) (auto simp: start_task_effect(2))

lemma on_event_project [simp]: "this_testproject (on_event ev s) = this_testproject s"
proof -
  have f: "this_testproject (foldl (\<lambda>s c. chain_then_catch (h c) s) s ids) = this_testproject s"
    for h ids
    by (induction ids arbitrary: s) simp_all
  show ?thesis
    by (cases ev) (simp_all add: on_event_def createTestPlan_def publishTestResults_def f)
qed

lemma event_tasks_provision:
  "Provision ro' \<in> set (event_tasks ro armed ev) \<Longrightarrow> ro' = ro \<and> \<not> truthy (opt ro ''testplanid'')"
  by (cases ev) (auto split: if_splits)

lemma provision_ok_react:
  assumes "provision_ok s"
  shows "provision_ok (react i s)"
proof -
  have "auto_provision (react i s) = auto_provision s"
    by (simp add: auto_provision_def queued_tasks_react)
  moreover have "auto_provision s" if "(j, c) \<in> set (calls (react i s))" "is_add c" for j c
  proof (cases "(j, c) \<in> set (calls s)")
    case True
    then show ?thesis using assms that(2) unfolding provision_ok_def by blast
  next
    case False
    have "\<exists>t. c = start_call s t"
    proof (rule disjE [OF react_calls [of i s]])
      assume "calls (react i s) = calls s"
      then show ?thesis using that(1) False by simp
    next
      assume "\<exists>src t. i < length (promises s) \<and> pstate (promises s ! i) = Waiting \<and>
        kind (promises s ! i) = Then src t \<and> react i s = start_task i t s \<and>
        calls (react i s) = calls s @ [(i, start_call s t)]"
      then obtain t where "calls (react i s) = calls s @ [(i, start_call s t)]" by blast
      then show ?thesis using that(1) False by auto
    qed
    then obtain t where "c = start_call s t" by blast
    then have "this_testproject s \<noteq> None" using that(2) start_call_add by blast
    then show ?thesis using assms unfolding provision_ok_def by blast
  qed
  ultimately show ?thesis
    using assms unfolding provision_ok_def by (auto simp: queued_tasks_react)
qed

lemma provision_ok_respond:
  assumes ok: "provision_ok s" and fr: "frames_ok (promises s)"
  shows "provision_ok (respond i r s)"
proof (cases i r s rule: respond_cases)
  case idle
  then show ?thesis using ok by simp
next
  case (resume f)
  have q: "queued_tasks (resume i f r s) = queued_tasks s"
    using queued_tasks_respond [of i r s] resume(3) by simp
  have fo: "frame_ok (kind (promises s ! i)) f"
    using fr resume(1,2) unfolding frames_ok_def by blast
  have 1: "auto_provision s" if "this_testproject (resume i f r s) \<noteq> None"
  proof (cases "this_testproject (resume i f r s) = this_testproject s")
    case True
    then show ?thesis using ok that unfolding provision_ok_def by simp
  next
    case False
    then obtain ro where f: "f = AwaitGetProjects ro"
      unfolding resume_project by (cases f) auto
    then obtain src where "kind (promises s ! i) = Then src (Provision ro)"
      using fo by (cases "(kind (promises s ! i), f)" rule: frame_ok.cases) auto
    then show ?thesis using task_in_queue [OF resume(1)] unfolding auto_provision_def by blast
  qed
  have 2: "auto_provision s" if "(j, c) \<in> set (calls (resume i f r s))" "is_add c" for j c
  proof -
    have "(j, c) \<in> set (calls s)"
      using that resume_calls_not_add [of c f r] unfolding resume_effect(2) by auto
    then show ?thesis using ok that(2) unfolding provision_ok_def by blast
  qed
  show ?thesis unfolding resume(3) provision_ok_def auto_provision_def q
    using 1 2 ok unfolding provision_ok_def auto_provision_def by auto
qed

lemma provision_ok_on_event:
  assumes "provision_ok s"
  shows "provision_ok (on_event ev s)"
proof -
  have q: "queued_tasks (on_event ev s) =
      queued_tasks s @ event_tasks (reporterOptions s) (run_begin_armed s) ev"
    by (rule queued_tasks_on_event)
  have mono: "auto_provision s \<Longrightarrow> auto_provision (on_event ev s)"
    unfolding auto_provision_def q by auto
  show ?thesis
    unfolding provision_ok_def
  proof (intro conjI allI impI)
    assume "this_testproject (on_event ev s) \<noteq> None"
    then show "auto_provision (on_event ev s)" using assms mono unfolding provision_ok_def by simp
  next
    fix i c assume "(i, c) \<in> set (calls (on_event ev s)) \<and> is_add c"
    then show "auto_provision (on_event ev s)"
      using assms mono unfolding provision_ok_def by (auto simp: on_event_frame(3))
  next
    fix ro assume "Provision ro \<in> set (queued_tasks (on_event ev s))"
    then consider "Provision ro \<in> set (queued_tasks s)"
      | "Provision ro \<in> set (event_tasks (reporterOptions s) (run_begin_armed s) ev)"
      unfolding q by auto
    then have "ro = reporterOptions s \<and> \<not> truthy (opt ro ''testplanid'')"
    proof cases
      case 1
      then show ?thesis using assms unfolding provision_ok_def by blast
    next
      case 2
      then show ?thesis using event_tasks_provision by blast
    qed
    then show "ro = reporterOptions (on_event ev s)" "\<not> truthy (opt ro ''testplanid'')"
      by (auto simp: on_event_frame(1))
  qed
qed


lemma awaiting_add_ok_upd:
  assumes ok: "awaiting_add_ok s" and seq: "sequential (promises s)"
    and p: "promises s' = upd_at k st (promises s)" and k: "k < length (promises s)"
    and unsettled: "\<forall>x. pstate (promises s ! k) \<noteq> Settled x"
    and src: "pstate (promises s ! k) = Waiting \<longrightarrow>
                0 < k \<and> (\<exists>x. pstate (promises s ! (k - 1)) = Settled x)"
    and cl: "calls s' = calls s @ map (Pair k) cs"
    and new: "\<forall>options. st = Running (AwaitAddTestCase options) \<longrightarrow>
                (\<exists>pr. cs = [AddTestCaseToTestPlan pr (testplanid options)
                               (testcaseexternalid options) 1])"
  shows "awaiting_add_ok s'"
  unfolding awaiting_add_ok_def
proof (intro allI impI)
  fix i options
  assume i: "i < length (promises s')"
    and run: "pstate (promises s' ! i) = Running (AwaitAddTestCase options)"
  have il: "i < length (promises s)" using i unfolding p by simp
  have ik: "i = k"
  proof (rule ccontr)
    assume ne: "i \<noteq> k"
    then have old: "pstate (promises s ! i) = Running (AwaitAddTestCase options)"
      using run il unfolding p by simp
    consider "i < k" | "k < i" using ne by linarith
    then show False
    proof cases
      case 2
      then have "\<exists>x. pstate (promises s ! k) = Settled x"
        using sequentialD [OF seq 2 il] old by simp
      then show False using unsettled by blast
    next
      case 1
      show False
      proof (cases "pstate (promises s ! k) = Waiting")
        case False
        then have "\<exists>x. pstate (promises s ! i) = Settled x"
          using sequentialD [OF seq 1 k] by simp
        then show False using old by simp
      next
        case True
        then obtain x where x: "0 < k" "pstate (promises s ! (k - 1)) = Settled x"
          using src by blast
        show False
        proof (cases "i = k - 1")
          case True
          then show False using x old by simp
        next
          case False
          then have "i < k - 1" using 1 by simp
          moreover have "k - 1 < length (promises s)" using k by simp
          ultimately have "\<exists>x. pstate (promises s ! i) = Settled x"
            using sequentialD [OF seq, of i "k - 1"] x by simp
          then show False using old by simp
        qed
      qed
    qed
  qed
  then have "st = Running (AwaitAddTestCase options)" using run il unfolding p by simp
  then obtain pr where "cs = [AddTestCaseToTestPlan pr (testplanid options)
      (testcaseexternalid options) 1]"
    using new by blast
  then show "calls s' \<noteq> [] \<and> (\<exists>pr. last (calls s') =
      (i, AddTestCaseToTestPlan pr (testplanid options) (testcaseexternalid options) 1))"
    unfolding cl ik by simp
qed

lemma foldl_chain_waiting:
  "\<exists>qs. promises (foldl (\<lambda>s c. chain_then_catch (f c) s) s ids) = promises s @ qs
      \<and> (\<forall>q \<in> set qs. pstate q = Waiting)"
proof (induction ids arbitrary: s)
  case Nil
  then show ?case by simp
next
  case (Cons c ids)
  obtain qs where qs:
    "promises (foldl (\<lambda>s c. chain_then_catch (f c) s) (chain_then_catch (f c) s) ids)
      = promises (chain_then_catch (f c) s) @ qs" "\<forall>q \<in> set qs. pstate q = Waiting"
    using Cons [of "chain_then_catch (f c) s"] by blast
  let ?new = "[\<lparr> kind = Then (promiseChain s) (f c), pstate = Waiting \<rparr>,
               \<lparr> kind = Catch (length (promises s)), pstate = Waiting \<rparr>] @ qs"
  have "promises (foldl (\<lambda>s c. chain_then_catch (f c) s) s (c # ids)) = promises s @ ?new"
    using qs(1) by simp
  moreover have "\<forall>q \<in> set ?new. pstate q = Waiting" using qs(2) by simp
  ultimately show ?case by blast
qed

lemma on_event_waiting:
  "\<exists>qs. promises (on_event ev s) = promises s @ qs \<and> (\<forall>q \<in> set qs. pstate q = Waiting)"
proof (cases ev)
  case EVENT_RUN_BEGIN
  show ?thesis
  proof (cases "run_begin_armed s \<and> \<not> truthy (opt (reporterOptions s) ''testplanid'')")
    case True
    let ?new = "[\<lparr> kind = Then (promiseChain s) (Provision (reporterOptions s)), pstate = Waiting \<rparr>,
                 \<lparr> kind = Catch (length (promises s)), pstate = Waiting \<rparr>]"
    have "promises (on_event ev s) = promises s @ ?new"
      using True EVENT_RUN_BEGIN by (simp add: on_event_def createTestPlan_def)
    moreover have "\<forall>q \<in> set ?new. pstate q = Waiting" by simp
    ultimately show ?thesis by blast
  next
    case False
    then have "promises (on_event ev s) = promises s @ []"
      using EVENT_RUN_BEGIN by (auto simp: on_event_def createTestPlan_def)
    then show ?thesis by (intro exI [of _ "[]"]) simp
  qed
qed (simp_all add: on_event_def publishTestResults_def foldl_chain_waiting)

lemma awaiting_add_ok_on_event:
  assumes "awaiting_add_ok s"
  shows "awaiting_add_ok (on_event ev s)"
  unfolding awaiting_add_ok_def
proof (intro allI impI)
  fix i options
  assume i: "i < length (promises (on_event ev s))"
    and run: "pstate (promises (on_event ev s) ! i) = Running (AwaitAddTestCase options)"
  obtain qs where qs: "promises (on_event ev s) = promises s @ qs" "\<forall>q \<in> set qs. pstate q = Waiting"
    using on_event_waiting by blast
  have il: "i < length (promises s)"
  proof (rule ccontr)
    assume "\<not> i < length (promises s)"
    then have "promises (on_event ev s) ! i = qs ! (i - length (promises s))"
      "i - length (promises s) < length qs"
      using i unfolding qs(1) by (auto simp: nth_append)
    then have "pstate (promises (on_event ev s) ! i) = Waiting" using qs(2) by simp
    then show False using run by simp
  qed
  then have "pstate (promises s ! i) = Running (AwaitAddTestCase options)"
    using run unfolding qs(1) by (simp add: nth_append)
  then show "calls (on_event ev s) \<noteq> [] \<and> (\<exists>pr. last (calls (on_event ev s)) =
      (i, AddTestCaseToTestPlan pr (testplanid options) (testcaseexternalid options) 1))"
    using assms il unfolding awaiting_add_ok_def on_event_frame(3) by blast
qed

lemma awaiting_add_ok_react:
  assumes ok: "awaiting_add_ok s" and inv: "reporter_inv s"
  shows "awaiting_add_ok (react i s)"
proof (cases i s rule: react_cases)
  case idle
  then show ?thesis using ok by simp
next
  case (start src t)
  have wf: "chain_wf s" and seq: "sequential (promises s)"
    using inv unfolding reporter_inv_def chain_inv_def by blast+
  have isrc: "i = Suc src" using then_source [OF wf start(1,3)] by blast
  show ?thesis unfolding start(6)
  proof (rule awaiting_add_ok_upd [OF ok seq start_task_effect(1) start(1),
        where cs = "[start_call s t]"])
    show "calls (start_task i t s) = calls s @ map (Pair i) [start_call s t]"
      by (simp add: start_task_effect(2))
    show "\<forall>options. Running (start_frame s t) = Running (AwaitAddTestCase options) \<longrightarrow>
        (\<exists>pr. [start_call s t] = [AddTestCaseToTestPlan pr (testplanid options)
                                    (testcaseexternalid options) 1])"
      using start_frame_add [of s t] by simp
  qed (use start isrc in auto)
next
  case (skip src t e)
  have "Rejected e = Fulfilled"
    using then_source_fulfilled [OF reporter_inv_chain [OF inv] skip(1,3,5)] .
  then show ?thesis by simp
next
  case (pass src)
  have wf: "chain_wf s" and seq: "sequential (promises s)"
    using inv unfolding reporter_inv_def chain_inv_def by blast+
  have isrc: "i = Suc src" using catch_source [OF wf pass(1,3)] .
  show ?thesis unfolding pass(6)
    by (rule awaiting_add_ok_upd [OF ok seq promises_set_pstate pass(1), where cs = "[]"])
      (use pass isrc in auto)
next
  case (log src e)
  have wf: "chain_wf s" and seq: "sequential (promises s)"
    using inv unfolding reporter_inv_def chain_inv_def by blast+
  have isrc: "i = Suc src" using catch_source [OF wf log(1,3)] .
  show ?thesis unfolding log(6)
    by (rule awaiting_add_ok_upd [OF ok seq _ log(1), where cs = "[]" and st = "Settled Fulfilled"])
      (use log isrc in \<open>auto simp: upd_at_def\<close>)
qed

lemma awaiting_add_ok_respond:
  assumes ok: "awaiting_add_ok s" and inv: "reporter_inv s"
  shows "awaiting_add_ok (respond i r s)"
proof (cases i r s rule: respond_cases)
  case idle
  then show ?thesis using ok by simp
next
  case (resume f)
  have seq: "sequential (promises s)"
    using inv unfolding reporter_inv_def chain_inv_def by blast
  show ?thesis unfolding resume(3)
    by (rule awaiting_add_ok_upd [OF ok seq resume_effect(1) resume(1),
          where cs = "resume_calls f r"])
      (use resume in \<open>auto simp: resume_effect(2) resume_pstate_not_add\<close>)
qed

lemma publish_inv_step:
  assumes "publish_inv s"
  shows "publish_inv (step a s)"
proof -
  have ri: "reporter_inv s" and po: "provision_ok s" and ao: "awaiting_add_ok s"
    using assms unfolding publish_inv_def by blast+
  have fr: "frames_ok (promises s)" using ri unfolding reporter_inv_def by blast
  show ?thesis
  proof (cases a)
    case (Emit ev)
    then show ?thesis unfolding publish_inv_def
      using reporter_inv_on_event [OF ri] provision_ok_on_event [OF po]
        awaiting_add_ok_on_event [OF ao]
      by (simp add: step_def)
  next
    case (React i)
    then show ?thesis unfolding publish_inv_def
      using reporter_inv_react [OF ri] provision_ok_react [OF po] awaiting_add_ok_react [OF ao ri]
      by (simp add: step_def)
  next
    case (Respond i r)
    then show ?thesis unfolding publish_inv_def
      using reporter_inv_respond [OF ri] provision_ok_respond [OF po fr]
        awaiting_add_ok_respond [OF ao ri]
      by (simp add: step_def)
  qed
qed

lemma publish_inv_run: "publish_inv s \<Longrightarrow> publish_inv (run acts s)"
  by (induction acts arbitrary: s) (auto simp: publish_inv_step)

lemma publish_inv_init:
  assumes "TestLinkReporter parse_url (Some ro) = Inr s"
  shows "publish_inv s"
proof -
  have "provision_ok s"
    unfolding provision_ok_def auto_provision_def using init_fields [OF assms] by simp
  moreover have "awaiting_add_ok s"
    using assms unfolding awaiting_add_ok_def TestLinkReporter_def
    by (auto split: sum.splits option.splits simp: less_Suc_eq)
  ultimately show ?thesis using reporter_inv_init [OF assms] unfolding publish_inv_def by blast
qed

lemma reporterOptions_run [simp]: "reporterOptions (run acts s) = reporterOptions s"
proof (induction acts arbitrary: s)
  case Nil
  then show ?case by simp
next
  case (Cons a acts)
  then show ?case by (cases a) (simp_all add: step_def on_event_frame(1))
qed

lemma then_starts:
  assumes inv: "reporter_inv s" and i: "i < length (promises s)"
    and k: "kind (promises s ! i) = Then src t" and w: "pstate (promises s ! i) = Waiting"
    and x: "pstate (promises s ! src) = Settled x"
  shows "react i s = start_task i t s"
proof -
  have ci: "chain_inv s" using inv by (rule reporter_inv_chain)
  then have wf: "chain_wf s" unfolding chain_inv_def by blast
  have "x = Fulfilled" using then_source_fulfilled [OF ci i k x] .
  moreover have "src < length (promises s)" using then_source [OF wf i k] i by simp
  ultimately show ?thesis using i k w x by (simp add: react_def)
qed

subsection \<open>The calls of one publishing function\<close>

definition node_calls :: "nat \<Rightarrow> reporter \<Rightarrow> rpc_call list" where
  "node_calls i s = map snd (filter (\<lambda>x. fst x = i) (calls s))"

text \<open>
  \<open>published i pre record s\<close>: promise \<open>i\<close> has started; the client has received from it
  the calls \<open>pre\<close> (its registration, if any) and then, unless the registration is pending or
  was rejected, the one submission of \<open>record\<close>.
\<close>

definition published :: "nat \<Rightarrow> rpc_call list \<Rightarrow> tc_result \<Rightarrow> reporter \<Rightarrow> bool" where
  "published i pre record s \<longleftrightarrow>
     i < length (promises s) \<and>
     (pstate (promises s ! i) = Running (AwaitAddTestCase record) \<and> pre \<noteq> [] \<and>
        node_calls i s = pre
      \<or> (\<exists>e. pstate (promises s ! i) = Settled (Rejected e)) \<and> pre \<noteq> [] \<and> node_calls i s = pre
      \<or> (pstate (promises s ! i) = Running AwaitReport \<or>
          (\<exists>x. pstate (promises s ! i) = Settled x)) \<and>
         node_calls i s = pre @ [ReportTCResult record])"

lemma node_calls_append:
  "calls s' = calls s @ map (Pair j) cs \<Longrightarrow>
     node_calls i s' = node_calls i s @ (if j = i then cs else [])"
  by (simp add: node_calls_def comp_def)

lemma published_other:
  assumes pb: "published i pre record s" and p: "promises s' = upd_at j st (promises s)"
    and ji: "j \<noteq> i" and cl: "calls s' = calls s @ map (Pair j) cs"
  shows "published i pre record s'"
  using pb ji unfolding published_def p node_calls_append [OF cl] by auto

lemma published_not_Waiting: "published i pre record s \<Longrightarrow> pstate (promises s ! i) \<noteq> Waiting"
  unfolding published_def by auto

lemma published_react:
  assumes pb: "published i pre record s"
  shows "published i pre record (react j s)"
proof (cases j s rule: react_cases)
  case idle
  then show ?thesis using pb by simp
next
  case (start src t)
  have "j \<noteq> i" using published_not_Waiting [OF pb] start(2) by auto
  then show ?thesis unfolding start(6)
    using published_other [OF pb start_task_effect(1), where cs = "[start_call s t]"]
    by (simp add: start_task_effect(2))
next
  case (skip src t e)
  have "j \<noteq> i" using published_not_Waiting [OF pb] skip(2) by auto
  then show ?thesis unfolding skip(6)
    using published_other [OF pb promises_set_pstate, where cs = "[]"] by simp
next
  case (pass src)
  have "j \<noteq> i" using published_not_Waiting [OF pb] pass(2) by auto
  then show ?thesis unfolding pass(6)
    using published_other [OF pb promises_set_pstate, where cs = "[]"] by simp
next
  case (log src e)
  have "j \<noteq> i" using published_not_Waiting [OF pb] log(2) by auto
  then show ?thesis unfolding log(6)
    using published_other [OF pb, where cs = "[]" and j = j and st = "Settled Fulfilled"]
    by (simp add: upd_at_def)
qed

lemma published_resume:
  assumes pb: "published i pre record s" and f: "pstate (promises s ! i) = Running f"
  shows "published i pre record (resume i f r s)"
proof -
  have i: "i < length (promises s)" using pb unfolding published_def by blast
  consider (add) "f = AwaitAddTestCase record" "pre \<noteq> []" "node_calls i s = pre"
    | (report) "f = AwaitReport" "node_calls i s = pre @ [ReportTCResult record]"
    using pb f unfolding published_def by auto
  then show ?thesis
  proof cases
    case add
    show ?thesis
    proof (cases r)
      case (Resolve xs)
      then show ?thesis unfolding published_def using add i
        by (simp add: resume_effect(1) node_calls_append [OF resume_effect(2)])
    next
      case (Reject e)
      then show ?thesis unfolding published_def using add i
        by (simp add: resume_effect(1) node_calls_append [OF resume_effect(2)])
    qed
  next
    case report
    then show ?thesis unfolding published_def using i
      by (simp add: resume_effect(1) node_calls_append [OF resume_effect(2)])
  qed
qed

lemma published_respond:
  assumes pb: "published i pre record s"
  shows "published i pre record (respond j r s)"
proof (cases j r s rule: respond_cases)
  case idle
  then show ?thesis using pb by simp
next
  case (resume f)
  show ?thesis
  proof (cases "j = i")
    case False
    then show ?thesis unfolding resume(3)
      using published_other [OF pb resume_effect(1), where cs = "resume_calls f r"]
      by (simp add: resume_effect(2))
  next
    case True
    then show ?thesis unfolding resume(3) using published_resume [OF pb] resume(2) by simp
  qed
qed

lemma published_on_event:
  assumes pb: "published i pre record s"
  shows "published i pre record (on_event ev s)"
proof -
  obtain qs where qs: "promises (on_event ev s) = promises s @ qs"
    using on_event_promises by blast
  have "node_calls i (on_event ev s) = node_calls i s"
    by (simp add: node_calls_def on_event_frame(3))
  then show ?thesis using pb unfolding published_def qs by (simp add: nth_append)
qed

lemma published_run: "published i pre record s \<Longrightarrow> published i pre record (run acts s)"
proof (induction acts arbitrary: s)
  case Nil
  then show ?case by simp
next
  case (Cons a acts)
  have "published i pre record (step a s)"
    using Cons.prems
    by (cases a) (simp_all add: step_def published_on_event published_react published_respond)
  then show ?case using Cons.IH by simp
qed

lemma published_calls:
  "published i pre record s \<Longrightarrow>
     node_calls i s = pre \<and> pre \<noteq> [] \<or> node_calls i s = pre @ [ReportTCResult record]"
  unfolding published_def by auto

text \<open>The state right after a publishing function has started.\<close>

lemma published_start:
  assumes ri: "reporter_inv s" and i: "i < length (promises s)"
    and k: "kind (promises s ! i) = Then src (Publish c g)"
    and w: "pstate (promises s ! i) = Waiting" and x: "pstate (promises s ! src) = Settled x"
  shows "published i
           (case this_testproject s of
              Some p \<Rightarrow> [AddTestCaseToTestPlan (obj_id p) (this_testplanid s) c 1]
            | None \<Rightarrow> [])
           (apply_gen s g c) (react i s)"
proof -
  have none: "(i, call) \<notin> set (calls s)" for call
    using ri i w unfolding reporter_inv_def calls_ok_def by blast
  then have "filter (\<lambda>x. fst x = i) (calls s) = []" by (auto simp: filter_empty_conv)
  then have nc: "node_calls i s = []" by (simp add: node_calls_def)
  have r: "react i s = start_task i (Publish c g) s" using then_starts [OF ri i k w x] .
  have cl: "calls (start_task i (Publish c g) s) = calls s @ map (Pair i) [start_call s (Publish c g)]"
    by (simp add: start_task_effect(2))
  show ?thesis
    unfolding r published_def node_calls_append [OF cl] nc start_task_effect(1)
    using i by (cases "this_testproject s") (simp_all add: start_call_def start_frame_def)
qed

text \<open>
  Claim C8. In every reachable state: a publishing function that starts while
  \<open>this.testproject\<close> is set issues \<open>addTestCaseToTestPlan\<close> for its case id, the current
  plan id and the project's id, and nothing else; while it awaits that call, the call is the
  last one the client received, and \<open>reportTCResult\<close> is issued when the call resolves (not
  when it rejects). A project is only ever set when no plan id is configured and
  provisioning was queued; with a configured plan id the project stays unset and the client
  never receives \<open>addTestCaseToTestPlan\<close>. Whatever happens after such a function has
  started, the calls the client has from it are the registration alone or the registration
  followed by the submission of the record.
\<close>
theorem add_case_before_report:
  assumes "TestLinkReporter parse_url (Some ro) = Inr s0"
  shows
    "(\<forall>i src c g p x. i < length (promises (run acts s0)) \<and>
         kind (promises (run acts s0) ! i) = Then src (Publish c g) \<and>
         pstate (promises (run acts s0) ! i) = Waiting \<and>
         pstate (promises (run acts s0) ! src) = Settled x \<and>
         this_testproject (run acts s0) = Some p \<longrightarrow>
         calls (react i (run acts s0)) = calls (run acts s0) @
           [(i, AddTestCaseToTestPlan (obj_id p) (this_testplanid (run acts s0)) c 1)] \<and>
         pstate (promises (react i (run acts s0)) ! i) =
           Running (AwaitAddTestCase (apply_gen (run acts s0) g c)))
     \<and> (\<forall>i options. i < length (promises (run acts s0)) \<and>
         pstate (promises (run acts s0) ! i) = Running (AwaitAddTestCase options) \<longrightarrow>
         (\<exists>pr. last (calls (run acts s0)) =
            (i, AddTestCaseToTestPlan pr (testplanid options) (testcaseexternalid options) 1)) \<and>
         (\<forall>xs. calls (respond i (Resolve xs) (run acts s0)) =
            calls (run acts s0) @ [(i, ReportTCResult options)]) \<and>
         (\<forall>e. calls (respond i (Reject e) (run acts s0)) = calls (run acts s0)))
     \<and> (this_testproject (run acts s0) \<noteq> None \<longrightarrow>
         \<not> truthy (opt ro ''testplanid'') \<and> Provision ro \<in> set (queued_tasks (run acts s0)))
     \<and> (truthy (opt ro ''testplanid'') \<longrightarrow>
         this_testproject (run acts s0) = None \<and>
         (\<forall>i c. (i, c) \<in> set (calls (run acts s0)) \<longrightarrow> \<not> is_add c))
     \<and> (\<forall>i src c g p x rest. i < length (promises (run acts s0)) \<and>
         kind (promises (run acts s0) ! i) = Then src (Publish c g) \<and>
         pstate (promises (run acts s0) ! i) = Waiting \<and>
         pstate (promises (run acts s0) ! src) = Settled x \<and>
         this_testproject (run acts s0) = Some p \<longrightarrow>
         node_calls i (run (acts @ React i # rest) s0) =
           [AddTestCaseToTestPlan (obj_id p) (this_testplanid (run acts s0)) c 1] \<or>
         node_calls i (run (acts @ React i # rest) s0) =
           [AddTestCaseToTestPlan (obj_id p) (this_testplanid (run acts s0)) c 1,
            ReportTCResult (apply_gen (run acts s0) g c)])"
proof -
  let ?s = "run acts s0"
  have pi: "publish_inv ?s" using publish_inv_run [OF publish_inv_init [OF assms]] .
  then have ri: "reporter_inv ?s" and po: "provision_ok ?s" and ao: "awaiting_add_ok ?s"
    unfolding publish_inv_def by blast+
  have ro: "reporterOptions ?s = ro" using init_fields(1) [OF assms] by simp
  have 1: "calls (react i ?s) = calls ?s @
        [(i, AddTestCaseToTestPlan (obj_id p) (this_testplanid ?s) c 1)] \<and>
      pstate (promises (react i ?s) ! i) = Running (AwaitAddTestCase (apply_gen ?s g c))"
    if "i < length (promises ?s)" "kind (promises ?s ! i) = Then src (Publish c g)"
      "pstate (promises ?s ! i) = Waiting" "pstate (promises ?s ! src) = Settled x"
      "this_testproject ?s = Some p" for i src c g p x
    unfolding then_starts [OF ri that(1-4)] start_task_effect
    using that(1,5) by (simp add: start_call_def start_frame_def)
  have 2: "(\<exists>pr. last (calls ?s) =
            (i, AddTestCaseToTestPlan pr (testplanid options) (testcaseexternalid options) 1)) \<and>
         (\<forall>xs. calls (respond i (Resolve xs) ?s) = calls ?s @ [(i, ReportTCResult options)]) \<and>
         (\<forall>e. calls (respond i (Reject e) ?s) = calls ?s)"
    if "i < length (promises ?s)" "pstate (promises ?s ! i) = Running (AwaitAddTestCase options)"
    for i options
  proof -
    have "respond i r ?s = resume i (AwaitAddTestCase options) r ?s" for r
      using that by (simp add: respond_def)
    then show ?thesis using ao that unfolding awaiting_add_ok_def
      by (simp add: resume_effect(2))
  qed
  have 3: "\<not> truthy (opt ro ''testplanid'') \<and> Provision ro \<in> set (queued_tasks ?s)"
    if "this_testproject ?s \<noteq> None"
    using po that ro unfolding provision_ok_def auto_provision_def by blast
  have 4: "this_testproject ?s = None \<and> (\<forall>i c. (i, c) \<in> set (calls ?s) \<longrightarrow> \<not> is_add c)"
    if "truthy (opt ro ''testplanid'')"
  proof -
    have "\<not> auto_provision ?s" using po that ro unfolding provision_ok_def auto_provision_def by blast
    then show ?thesis using po unfolding provision_ok_def by blast
  qed
  have 5: "node_calls i (run (acts @ React i # rest) s0) =
        [AddTestCaseToTestPlan (obj_id p) (this_testplanid ?s) c 1] \<or>
      node_calls i (run (acts @ React i # rest) s0) =
        [AddTestCaseToTestPlan (obj_id p) (this_testplanid ?s) c 1,
         ReportTCResult (apply_gen ?s g c)]"
    if h: "i < length (promises ?s)" "kind (promises ?s ! i) = Then src (Publish c g)"
      "pstate (promises ?s ! i) = Waiting" "pstate (promises ?s ! src) = Settled x"
      "this_testproject ?s = Some p" for i src c g p x rest
  proof -
    have "published i [AddTestCaseToTestPlan (obj_id p) (this_testplanid ?s) c 1]
        (apply_gen ?s g c) (react i ?s)"
      using published_start [OF ri h(1-4)] h(5) by simp
    then have "published i [AddTestCaseToTestPlan (obj_id p) (this_testplanid ?s) c 1]
        (apply_gen ?s g c) (run rest (react i ?s))"
      by (rule published_run)
    then show ?thesis using published_calls by (fastforce simp: run_append step_def)
  qed
  show ?thesis using 1 2 3 4 5 by blast
qed

subsection \<open>When the list of projects has no project of the configured prefix\<close>

fun awaits_projects :: "pstate \<Rightarrow> bool" where
  "awaits_projects (Running (AwaitGetProjects ro)) = True"
| "awaits_projects st = False"

fun unmatched :: "reporter_options \<Rightarrow> action \<Rightarrow> reporter \<Rightarrow> bool" where
  "unmatched ro (Respond i (Resolve projects)) s =
     (if i < length (promises s) \<and> awaits_projects (pstate (promises s ! i))
      then find (\<lambda>p. obj_prefix p = opt ro ''prefix'') projects = None else True)"
| "unmatched ro a s = True"

fun no_project_match :: "reporter_options \<Rightarrow> action list \<Rightarrow> reporter \<Rightarrow> bool" where
  "no_project_match ro [] s = True"
| "no_project_match ro (a # as) s = (unmatched ro a s \<and> no_project_match ro as (step a s))"

definition unresolved :: "reporter \<Rightarrow> bool" where
  "unresolved s \<longleftrightarrow> this_testproject s = None \<and> (\<forall>i c. (i, c) \<in> set (calls s) \<longrightarrow> \<not> is_add c)"

lemma unresolved_step:
  assumes pi: "publish_inv s" and u: "unresolved s" and g: "unmatched (reporterOptions s) a s"
  shows "unresolved (step a s)"
proof (cases a)
  case (Emit ev)
  then show ?thesis using u unfolding unresolved_def by (simp add: step_def on_event_frame(3))
next
  case (React i)
  have "\<not> is_add c" if "(j, c) \<in> set (calls (react i s))" for j c
  proof (cases "(j, c) \<in> set (calls s)")
    case True
    then show ?thesis using u unfolding unresolved_def by blast
  next
    case False
    have "\<exists>t. c = start_call s t"
    proof (rule disjE [OF react_calls [of i s]])
      assume "calls (react i s) = calls s"
      then show ?thesis using that False by simp
    next
      assume "\<exists>src t. i < length (promises s) \<and> pstate (promises s ! i) = Waiting \<and>
        kind (promises s ! i) = Then src t \<and> react i s = start_task i t s \<and>
        calls (react i s) = calls s @ [(i, start_call s t)]"
      then obtain t where "calls (react i s) = calls s @ [(i, start_call s t)]" by blast
      then show ?thesis using that False by auto
    qed
    then show ?thesis using start_call_add u unfolding unresolved_def by blast
  qed
  then show ?thesis using u React unfolding unresolved_def by (simp add: step_def)
next
  case (Respond i r)
  show ?thesis
  proof (cases i r s rule: respond_cases)
    case idle
    then show ?thesis using u Respond by (simp add: step_def)
  next
    case (resume f)
    have ri: "reporter_inv s" and po: "provision_ok s" using pi unfolding publish_inv_def by blast+
    have fo: "frame_ok (kind (promises s ! i)) f"
      using ri resume(1,2) unfolding reporter_inv_def frames_ok_def by blast
    have proj: "this_testproject (resume i f r s) = None"
    proof (cases "this_testproject (resume i f r s) = this_testproject s")
      case True
      then show ?thesis using u unfolding unresolved_def by simp
    next
      case False
      then obtain rg projects where f: "f = AwaitGetProjects rg" and r: "r = Resolve projects"
        unfolding resume_project by (cases f; cases r) auto
      obtain src where "kind (promises s ! i) = Then src (Provision rg)"
        using fo f by (cases "(kind (promises s ! i), f)" rule: frame_ok.cases) auto
      then have "Provision rg \<in> set (queued_tasks s)" using task_in_queue [OF resume(1)] by blast
      then have rg: "rg = reporterOptions s" using po unfolding provision_ok_def by blast
      have "find (\<lambda>p. obj_prefix p = opt (reporterOptions s) ''prefix'') projects = None"
        using g resume(1,2) unfolding Respond r f by simp
      then show ?thesis unfolding resume_project f r rg by simp
    qed
    have "\<not> is_add c" if "(j, c) \<in> set (calls (resume i f r s))" for j c
      using that u resume_calls_not_add [of c f r] unfolding resume_effect(2) unresolved_def by auto
    then show ?thesis using proj Respond resume(3) unfolding unresolved_def by (simp add: step_def)
  qed
qed

lemma unresolved_run:
  "publish_inv s \<Longrightarrow> unresolved s \<Longrightarrow> no_project_match (reporterOptions s) acts s
     \<Longrightarrow> unresolved (run acts s)"
proof (induction acts arbitrary: s)
  case Nil
  then show ?case by simp
next
  case (Cons a acts)
  have "reporterOptions (step a s) = reporterOptions s"
    using reporterOptions_run [of "[a]" s] by simp
  then show ?case
    using Cons.IH [of "step a s"] Cons.prems publish_inv_step [of s a] unresolved_step [of s a]
    by simp
qed

text \<open>
  Claim C10. When no answer to \<open>getProjects\<close> contains a project whose prefix is the
  configured one, \<open>this.testproject\<close> stays unset and the client never receives
  \<open>addTestCaseToTestPlan\<close>; a publishing function whose turn has come issues
  \<open>reportTCResult\<close> at once, with the plan id and build id the reporter holds, and every
  publishing function that has started has submitted a result for its case id: whatever
  happens afterwards, that submission is the only call the client has from it.
\<close>
theorem no_matching_project:
  assumes "TestLinkReporter parse_url (Some ro) = Inr s0" and "no_project_match ro acts s0"
  shows
    "this_testproject (run acts s0) = None
     \<and> (\<forall>i c. (i, c) \<in> set (calls (run acts s0)) \<longrightarrow> \<not> is_add c)
     \<and> (\<forall>i src c g x. i < length (promises (run acts s0)) \<and>
           kind (promises (run acts s0) ! i) = Then src (Publish c g) \<and>
           pstate (promises (run acts s0) ! i) = Waiting \<and>
           pstate (promises (run acts s0) ! src) = Settled x \<longrightarrow>
           calls (react i (run acts s0)) =
             calls (run acts s0) @ [(i, ReportTCResult (apply_gen (run acts s0) g c))] \<and>
           testplanid (apply_gen (run acts s0) g c) = this_testplanid (run acts s0) \<and>
           buildid (apply_gen (run acts s0) g c) = this_buildid (run acts s0))
     \<and> (\<forall>i src c g. i < length (promises (run acts s0)) \<and>
           kind (promises (run acts s0) ! i) = Then src (Publish c g) \<and>
           pstate (promises (run acts s0) ! i) \<noteq> Waiting \<longrightarrow>
           (\<exists>options. (i, ReportTCResult options) \<in> set (calls (run acts s0)) \<and>
              testcaseexternalid options = c))
     \<and> (\<forall>i src c g x rest. i < length (promises (run acts s0)) \<and>
           kind (promises (run acts s0) ! i) = Then src (Publish c g) \<and>
           pstate (promises (run acts s0) ! i) = Waiting \<and>
           pstate (promises (run acts s0) ! src) = Settled x \<longrightarrow>
           node_calls i (run (acts @ React i # rest) s0) =
             [ReportTCResult (apply_gen (run acts s0) g c)])"
proof -
  let ?s = "run acts s0"
  have p0: "publish_inv s0" using publish_inv_init [OF assms(1)] .
  have ro: "reporterOptions s0 = ro" using init_fields(1) [OF assms(1)] .
  have "unresolved s0" unfolding unresolved_def using init_fields [OF assms(1)] by simp
  then have u: "unresolved ?s" using unresolved_run [OF p0] assms(2) ro by simp
  have ri: "reporter_inv ?s" using publish_inv_run [OF p0] unfolding publish_inv_def by blast
  have 3: "calls (react i ?s) = calls ?s @ [(i, ReportTCResult (apply_gen ?s g c))] \<and>
           testplanid (apply_gen ?s g c) = this_testplanid ?s \<and>
           buildid (apply_gen ?s g c) = this_buildid ?s"
    if "i < length (promises ?s)" "kind (promises ?s ! i) = Then src (Publish c g)"
      "pstate (promises ?s ! i) = Waiting" "pstate (promises ?s ! src) = Settled x" for i src c g x
    unfolding then_starts [OF ri that] start_task_effect
    using u unfolding unresolved_def by (simp add: start_call_def)
  have 4: "\<exists>options. (i, ReportTCResult options) \<in> set (calls ?s) \<and> testcaseexternalid options = c"
    if h: "i < length (promises ?s)" "kind (promises ?s ! i) = Then src (Publish c g)"
      "pstate (promises ?s ! i) \<noteq> Waiting" for i src c g
  proof -
    have co: "calls_ok ?s" using ri unfolding reporter_inv_def by blast
    then have "i \<in> fst ` set (calls ?s)" using h unfolding calls_ok_def by auto
    then obtain c' where c': "(i, c') \<in> set (calls ?s)" by force
    then have "call_of (kind (promises ?s ! i)) c'" using co unfolding calls_ok_def by blast
    moreover have "\<not> is_add c'" using u c' unfolding unresolved_def by blast
    ultimately obtain options where "c' = ReportTCResult options" "testcaseexternalid options = c"
      unfolding h(2) by (cases c') auto
    then show ?thesis using c' by blast
  qed
  have 5: "node_calls i (run (acts @ React i # rest) s0) = [ReportTCResult (apply_gen ?s g c)]"
    if h: "i < length (promises ?s)" "kind (promises ?s ! i) = Then src (Publish c g)"
      "pstate (promises ?s ! i) = Waiting" "pstate (promises ?s ! src) = Settled x"
    for i src c g x rest
  proof -
    have "this_testproject ?s = None" using u unfolding unresolved_def by blast
    then have "published i [] (apply_gen ?s g c) (react i ?s)"
      using published_start [OF ri h] by simp
    then have "published i [] (apply_gen ?s g c) (run rest (react i ?s))"
      by (rule published_run)
    then show ?thesis using published_calls by (fastforce simp: run_append step_def)
  qed
  show ?thesis using u 3 4 5 unfolding unresolved_def by blast
qed

subsection \<open>Further concrete runs\<close>

definition demo_provision :: "action list" where
  "demo_provision =
     [Respond 0 (Resolve []), React 1, React 2,
      Respond 2 (Resolve [\<lparr> obj_id = JStr ''42'', obj_prefix = JUndefined \<rparr>]),
      Respond 2 (Resolve [\<lparr> obj_id = JStr ''7'', obj_prefix = JUndefined \<rparr>]),
      Respond 2 (Resolve [\<lparr> obj_id = JStr ''1'', obj_prefix = JStr ''ABC'' \<rparr>,
                          \<lparr> obj_id = JStr ''3'', obj_prefix = JStr ''XPJ'' \<rparr>]),
      React 3]"

definition demo_nomatch :: "action list" where
  "demo_nomatch =
     [Respond 0 (Resolve []), React 1, React 2,
      Respond 2 (Resolve [\<lparr> obj_id = JStr ''42'', obj_prefix = JUndefined \<rparr>]),
      Respond 2 (Resolve [\<lparr> obj_id = JStr ''7'', obj_prefix = JUndefined \<rparr>]),
      Respond 2 (Resolve [\<lparr> obj_id = JStr ''1'', obj_prefix = JStr ''ABC'' \<rparr>]),
      React 3]"

definition demo_chain :: "promise list" where
  "demo_chain =
     [\<lparr> kind = Root, pstate = Settled Fulfilled \<rparr>,
      \<lparr> kind = Catch 0, pstate = Settled Fulfilled \<rparr>,
      \<lparr> kind = Then 1 (Provision demo_options), pstate = Settled Fulfilled \<rparr>,
      \<lparr> kind = Catch 2, pstate = Settled Fulfilled \<rparr>,
      \<lparr> kind = Then 3 (Publish ''XPJ-5'' (TcGen (Some (Finite 1200)) None)), pstate = Waiting \<rparr>,
      \<lparr> kind = Catch 4, pstate = Waiting \<rparr>]"

lemma demo_provisioned:
  "run (demo_enqueue @ demo_provision) demo_s0 =
     demo_s0\<lparr> run_begin_armed := False, promiseChain := 5,
       this_testplanid := JStr ''42'', this_buildid := JStr ''7'',
       this_testproject := Some \<lparr> obj_id = JStr ''3'', obj_prefix = JStr ''XPJ'' \<rparr>,
       promises := demo_chain,
       calls := [(0, CheckDevKey), (2, CreateTestPlan (JStr ''XPJ'')), (2, CreateBuild (JStr ''42'')),
                 (2, GetProjects)] \<rparr>"
  unfolding run_append demo_enqueued
  by (simp add: demo_provision_def demo_s0_def demo_chain_def demo_eval)

lemma demo_unmatched:
  "run (demo_enqueue @ demo_nomatch) demo_s0 =
     demo_s0\<lparr> run_begin_armed := False, promiseChain := 5,
       this_testplanid := JStr ''42'', this_buildid := JStr ''7'',
       promises := demo_chain,
       calls := [(0, CheckDevKey), (2, CreateTestPlan (JStr ''XPJ'')), (2, CreateBuild (JStr ''42'')),
                 (2, GetProjects)] \<rparr>"
  unfolding run_append demo_enqueued
  by (simp add: demo_nomatch_def demo_s0_def demo_chain_def demo_eval)

lemma demo_no_project_match: "no_project_match demo_options (demo_enqueue @ demo_nomatch) demo_s0"
  by (simp add: demo_enqueue_def demo_nomatch_def demo_s0_def demo_eval)

lemma demo_apply_gen:
  "this_testplanid s = JStr ''42'' \<Longrightarrow> this_buildid s = JStr ''7''
     \<Longrightarrow> apply_gen s (TcGen (Some (Finite 1200)) None) ''XPJ-5'' = demo_record"
  by (simp add: apply_gen_def tcOptions_def demo_record_def)

text \<open>A run with a configured plan: the constructor, run-begin and one passed test.\<close>

definition demo_plan_options :: reporter_options where
  "demo_plan_options = demo_options(''testplanid'' \<mapsto> JStr ''14'', ''buildid'' \<mapsto> JStr ''1'')"

definition demo_p0 :: reporter where
  "demo_p0 = demo_s0\<lparr> reporterOptions := demo_plan_options \<rparr>"

lemma demo_plan_opt:
  "opt demo_plan_options ''URL'' = JStr ''http://localhost:80''"
  "opt demo_plan_options ''apiKey'' = JStr ''key''"
  "opt demo_plan_options ''prefix'' = JStr ''XPJ''"
  "opt demo_plan_options ''testplanid'' = JStr ''14''"
  "opt demo_plan_options ''buildid'' = JStr ''1''"
  by (simp_all add: opt_def demo_plan_options_def demo_options_def)

lemma demo_plan_init: "TestLinkReporter demo_url (Some demo_plan_options) = Inr demo_p0"
  by (simp add: TestLinkReporter_def validateReporterOptions_def demo_plan_opt
      establishTestLinkConnection_def demo_url_def demo_s0_def demo_p0_def)

lemma demo_plan_calls:
  "calls (run (demo_enqueue @ [Respond 0 (Resolve []), React 1, React 2]) demo_p0) =
     [(0, CheckDevKey),
      (2, ReportTCResult (demo_record\<lparr> testplanid := JStr ''14'', buildid := JStr ''1'' \<rparr>))]"
  by (simp add: demo_enqueue_def demo_p0_def demo_s0_def demo_record_def demo_eval demo_plan_opt
      del: demo_opt)

text \<open>
  The theorem of claim C8 at the provisioned run, where the publishing function is about to
  start, and at a run with a configured plan.
\<close>
theorem add_case_before_report_witness:
  "calls (react 4 (run (demo_enqueue @ demo_provision) demo_s0)) =
     calls (run (demo_enqueue @ demo_provision) demo_s0) @
       [(4, AddTestCaseToTestPlan (JStr ''3'') (JStr ''42'') ''XPJ-5'' 1)]
   \<and> pstate (promises (react 4 (run (demo_enqueue @ demo_provision) demo_s0)) ! 4) =
       Running (AwaitAddTestCase demo_record)
   \<and> this_testproject (run (demo_enqueue @ [Respond 0 (Resolve []), React 1, React 2]) demo_p0) = None
   \<and> list_all (\<lambda>(i, c). \<not> is_add c)
       (calls (run (demo_enqueue @ [Respond 0 (Resolve []), React 1, React 2]) demo_p0))"
proof -
  let ?s = "run (demo_enqueue @ demo_provision) demo_s0"
  note t = add_case_before_report [OF demo_init, of "demo_enqueue @ demo_provision"]
  have h: "4 < length (promises ?s) \<and>
      kind (promises ?s ! 4) = Then 3 (Publish ''XPJ-5'' (TcGen (Some (Finite 1200)) None)) \<and>
      pstate (promises ?s ! 4) = Waiting \<and> pstate (promises ?s ! 3) = Settled Fulfilled \<and>
      this_testproject ?s = Some \<lparr> obj_id = JStr ''3'', obj_prefix = JStr ''XPJ'' \<rparr>"
    by (simp add: demo_provisioned demo_chain_def)
  have g: "apply_gen ?s (TcGen (Some (Finite 1200)) None) ''XPJ-5'' = demo_record"
    by (rule demo_apply_gen) (simp_all add: demo_provisioned)
  have a: "calls (react 4 ?s) = calls ?s @
        [(4, AddTestCaseToTestPlan (obj_id \<lparr> obj_id = JStr ''3'', obj_prefix = JStr ''XPJ'' \<rparr>)
               (this_testplanid ?s) ''XPJ-5'' 1)] \<and>
      pstate (promises (react 4 ?s) ! 4) =
        Running (AwaitAddTestCase (apply_gen ?s (TcGen (Some (Finite 1200)) None) ''XPJ-5''))"
    using t [THEN conjunct1, rule_format, OF h] .
  have a': "calls (react 4 ?s) = calls ?s @
        [(4, AddTestCaseToTestPlan (JStr ''3'') (JStr ''42'') ''XPJ-5'' 1)] \<and>
      pstate (promises (react 4 ?s) ! 4) = Running (AwaitAddTestCase demo_record)"
    using a unfolding g by (simp add: demo_provisioned)
  let ?p = "run (demo_enqueue @ [Respond 0 (Resolve []), React 1, React 2]) demo_p0"
  note u = add_case_before_report [OF demo_plan_init,
      of "demo_enqueue @ [Respond 0 (Resolve []), React 1, React 2]"]
  have "truthy (opt demo_plan_options ''testplanid'')" by (simp add: demo_plan_opt)
  then have b: "this_testproject ?p = None \<and> (\<forall>i c. (i, c) \<in> set (calls ?p) \<longrightarrow> \<not> is_add c)"
    using u [THEN conjunct2, THEN conjunct2, THEN conjunct2] by blast
  then have "list_all (\<lambda>(i, c). \<not> is_add c) (calls ?p)" unfolding list_all_iff by blast
  then show ?thesis using a' b by blast
qed

text \<open>The theorem of claim C10 at a run whose project list has no project of prefix \<open>XPJ\<close>.\<close>
theorem no_matching_project_witness:
  "this_testproject (run (demo_enqueue @ demo_nomatch) demo_s0) = None
   \<and> calls (react 4 (run (demo_enqueue @ demo_nomatch) demo_s0)) =
       [(0, CheckDevKey), (2, CreateTestPlan (JStr ''XPJ'')), (2, CreateBuild (JStr ''42'')),
        (2, GetProjects), (4, ReportTCResult demo_record)]"
proof -
  let ?s = "run (demo_enqueue @ demo_nomatch) demo_s0"
  note t = no_matching_project [OF demo_init demo_no_project_match]
  have h: "4 < length (promises ?s) \<and>
      kind (promises ?s ! 4) = Then 3 (Publish ''XPJ-5'' (TcGen (Some (Finite 1200)) None)) \<and>
      pstate (promises ?s ! 4) = Waiting \<and> pstate (promises ?s ! 3) = Settled Fulfilled"
    by (simp add: demo_unmatched demo_chain_def)
  have g: "apply_gen ?s (TcGen (Some (Finite 1200)) None) ''XPJ-5'' = demo_record"
    by (rule demo_apply_gen) (simp_all add: demo_unmatched)
  have "calls (react 4 ?s) = calls ?s @ [(4, ReportTCResult (apply_gen ?s (TcGen (Some (Finite 1200)) None) ''XPJ-5''))]"
    using t [THEN conjunct2, THEN conjunct2, THEN conjunct1, rule_format, OF h] by (rule conjunct1)
  then have "calls (react 4 ?s) =
       [(0, CheckDevKey), (2, CreateTestPlan (JStr ''XPJ'')), (2, CreateBuild (JStr ''42'')),
        (2, GetProjects), (4, ReportTCResult demo_record)]"
    unfolding g by (simp add: demo_unmatched)
  then show ?thesis using t [THEN conjunct1] by blast
qed

subsection \<open>The record a queued function submits\<close>

definition submits_only :: "nat \<Rightarrow> tc_result \<Rightarrow> reporter \<Rightarrow> bool" where
  "submits_only i record s \<longleftrightarrow>
     i < length (promises s) \<and> pstate (promises s ! i) \<noteq> Waiting \<and>
     (\<forall>options. (i, ReportTCResult options) \<in> set (calls s) \<longrightarrow> options = record) \<and>
     (\<forall>options. pstate (promises s ! i) = Running (AwaitAddTestCase options) \<longrightarrow> options = record)"

lemma resume_calls_report:
  "ReportTCResult options \<in> set (resume_calls f r) \<Longrightarrow> f = AwaitAddTestCase options"
  by (cases "(f, r)" rule: resume_calls.cases) auto

lemma submits_only_other:
  assumes so: "submits_only i record s" and p: "promises s' = upd_at j st (promises s)"
    and ji: "j \<noteq> i" and cl: "calls s' = calls s @ map (Pair j) cs"
  shows "submits_only i record s'"
  using so ji unfolding submits_only_def p cl by auto

lemma submits_only_react:
  assumes so: "submits_only i record s"
  shows "submits_only i record (react j s)"
proof (cases j s rule: react_cases)
  case idle
  then show ?thesis using so by simp
next
  case (start src t)
  have "j \<noteq> i" using so start(2) unfolding submits_only_def by auto
  then show ?thesis unfolding start(6)
    using submits_only_other [OF so start_task_effect(1), where cs = "[start_call s t]"]
    by (simp add: start_task_effect(2))
next
  case (skip src t e)
  have "j \<noteq> i" using so skip(2) unfolding submits_only_def by auto
  then show ?thesis unfolding skip(6)
    using submits_only_other [OF so promises_set_pstate, where cs = "[]"] by simp
next
  case (pass src)
  have "j \<noteq> i" using so pass(2) unfolding submits_only_def by auto
  then show ?thesis unfolding pass(6)
    using submits_only_other [OF so promises_set_pstate, where cs = "[]"] by simp
next
  case (log src e)
  have "j \<noteq> i" using so log(2) unfolding submits_only_def by auto
  then show ?thesis unfolding log(6)
    using submits_only_other [OF so, where cs = "[]" and j = j and st = "Settled Fulfilled"]
    by (simp add: upd_at_def)
qed

lemma submits_only_respond:
  assumes so: "submits_only i record s"
  shows "submits_only i record (respond j r s)"
proof (cases j r s rule: respond_cases)
  case idle
  then show ?thesis using so by simp
next
  case (resume f)
  show ?thesis
  proof (cases "j = i")
    case False
    then show ?thesis unfolding resume(3)
      using submits_only_other [OF so resume_effect(1), where cs = "resume_calls f r"]
      by (simp add: resume_effect(2))
  next
    case True
    have "options = record" if "(i, ReportTCResult options) \<in> set (calls (resume j f r s))"
      for options
    proof (cases "(i, ReportTCResult options) \<in> set (calls s)")
      case True
      then show ?thesis using so unfolding submits_only_def by blast
    next
      case False
      then have "ReportTCResult options \<in> set (resume_calls f r)"
        using that unfolding resume_effect(2) by auto
      then have "f = AwaitAddTestCase options" by (rule resume_calls_report)
      then show ?thesis using so resume(2) True unfolding submits_only_def by blast
    qed
    then show ?thesis unfolding resume(3) submits_only_def
      using so True resume(1) resume_pstate_not_add [of f r]
      by (simp add: resume_effect(1) submits_only_def)
  qed
qed

lemma submits_only_on_event:
  assumes so: "submits_only i record s"
  shows "submits_only i record (on_event ev s)"
proof -
  obtain qs where qs: "promises (on_event ev s) = promises s @ qs"
    using on_event_promises by blast
  show ?thesis using so unfolding submits_only_def qs on_event_frame(3)
    by (simp add: nth_append)
qed

lemma submits_only_run: "submits_only i record s \<Longrightarrow> submits_only i record (run acts s)"
proof (induction acts arbitrary: s)
  case Nil
  then show ?case by simp
next
  case (Cons a acts)
  have "submits_only i record (step a s)"
    using Cons.prems
    by (cases a) (simp_all add: step_def submits_only_on_event submits_only_react submits_only_respond)
  then show ?case using Cons.IH by simp
qed

text \<open>
  Claim C2, amended. \<open>optionsGen(caseId)\<close> is called inside the queued function. Before
  the function starts, no record has been submitted for it; from the state in which it
  starts, whatever happens afterwards, every record the client receives from it is the one
  built in that state, whose plan id and build id are those the reporter holds at that
  moment, after every earlier promise of the chain has settled.
\<close>
theorem record_built_at_start:
  assumes "TestLinkReporter parse_url (Some ro) = Inr s0"
  shows
    "\<forall>i src c g x. i < length (promises (run acts s0)) \<and>
        kind (promises (run acts s0) ! i) = Then src (Publish c g) \<and>
        pstate (promises (run acts s0) ! i) = Waiting \<and>
        pstate (promises (run acts s0) ! src) = Settled x \<longrightarrow>
        testplanid (apply_gen (run acts s0) g c) = this_testplanid (run acts s0) \<and>
        buildid (apply_gen (run acts s0) g c) = this_buildid (run acts s0) \<and>
        (\<forall>options. (i, ReportTCResult options) \<notin> set (calls (run acts s0))) \<and>
        (\<forall>rest options.
           (i, ReportTCResult options) \<in> set (calls (run (acts @ React i # rest) s0)) \<longrightarrow>
           options = apply_gen (run acts s0) g c)"
proof (intro allI impI)
  fix i src c g x
  let ?s = "run acts s0"
  assume a: "i < length (promises ?s) \<and> kind (promises ?s ! i) = Then src (Publish c g) \<and>
      pstate (promises ?s ! i) = Waiting \<and> pstate (promises ?s ! src) = Settled x"
  have ri: "reporter_inv ?s" using reporter_inv_run [OF reporter_inv_init [OF assms]] .
  have none: "(i, call) \<notin> set (calls ?s)" for call
    using ri a unfolding reporter_inv_def calls_ok_def by blast
  have r: "react i ?s = start_task i (Publish c g) ?s"
    using then_starts [OF ri] a by blast
  have "submits_only i (apply_gen ?s g c) (react i ?s)"
    unfolding r submits_only_def start_task_effect using a none
    by (cases "this_testproject ?s") (auto simp: start_call_def start_frame_def)
  then have so: "submits_only i (apply_gen ?s g c) (run rest (react i ?s))" for rest
    by (rule submits_only_run)
  have "options = apply_gen ?s g c"
    if "(i, ReportTCResult options) \<in> set (calls (run (acts @ React i # rest) s0))"
    for rest options
    using so [of rest] that unfolding submits_only_def by (simp add: run_append step_def)
  then show "testplanid (apply_gen ?s g c) = this_testplanid ?s \<and>
        buildid (apply_gen ?s g c) = this_buildid ?s \<and>
        (\<forall>options. (i, ReportTCResult options) \<notin> set (calls ?s)) \<and>
        (\<forall>rest options.
           (i, ReportTCResult options) \<in> set (calls (run (acts @ React i # rest) s0)) \<longrightarrow>
           options = apply_gen ?s g c)"
    using none by simp
qed

definition demo_publish :: "action list" where
  "demo_publish = [Respond 4 (Resolve []), Respond 4 (Reject (ClientError ''timeout'')), React 5]"

lemma demo_replies_split: "demo_replies = demo_provision @ React 4 # demo_publish"
  by (simp add: demo_replies_def demo_provision_def demo_publish_def)

text \<open>The amended claim C2 at the provisioned run and the record its client receives.\<close>
theorem record_built_at_start_witness:
  "(4, ReportTCResult demo_record) \<in> set (calls (run (demo_enqueue @ demo_replies) demo_s0))
   \<and> demo_record =
       apply_gen (run (demo_enqueue @ demo_provision) demo_s0) (TcGen (Some (Finite 1200)) None) ''XPJ-5''
   \<and> testplanid demo_record = this_testplanid (run (demo_enqueue @ demo_provision) demo_s0)
   \<and> buildid demo_record = this_buildid (run (demo_enqueue @ demo_provision) demo_s0)
   \<and> this_testplanid (run (demo_enqueue @ demo_provision) demo_s0) = JStr ''42''"
proof -
  let ?s = "run (demo_enqueue @ demo_provision) demo_s0"
  have h: "4 < length (promises ?s) \<and>
      kind (promises ?s ! 4) = Then 3 (Publish ''XPJ-5'' (TcGen (Some (Finite 1200)) None)) \<and>
      pstate (promises ?s ! 4) = Waiting \<and> pstate (promises ?s ! 3) = Settled Fulfilled"
    by (simp add: demo_provisioned demo_chain_def)
  note t = record_built_at_start [OF demo_init, of "demo_enqueue @ demo_provision",
      rule_format, OF h]
  have acts: "(demo_enqueue @ demo_provision) @ React 4 # demo_publish = demo_enqueue @ demo_replies"
    by (simp add: demo_replies_split)
  have mem: "(4, ReportTCResult demo_record) \<in> set (calls (run (demo_enqueue @ demo_replies) demo_s0))"
    by (simp add: demo_final)
  then have "(4, ReportTCResult demo_record) \<in>
      set (calls (run ((demo_enqueue @ demo_provision) @ React 4 # demo_publish) demo_s0))"
    unfolding acts .
  then have eq: "demo_record = apply_gen ?s (TcGen (Some (Finite 1200)) None) ''XPJ-5''"
    using t [THEN conjunct2, THEN conjunct2, THEN conjunct2, rule_format] by blast
  have ids: "testplanid (apply_gen ?s (TcGen (Some (Finite 1200)) None) ''XPJ-5'') = this_testplanid ?s"
    "buildid (apply_gen ?s (TcGen (Some (Finite 1200)) None) ''XPJ-5'') = this_buildid ?s"
    using t by blast+
  have "this_testplanid ?s = JStr ''42''" by (simp add: demo_provisioned)
  then show ?thesis using mem eq ids by simp
qed

text \<open>
  Claim C2 as stated fails. With a prefix and no plan id configured, the test-pass event
  queues its submission while the reporter's plan id and build id are still \<open>undefined\<close>;
  the record the client receives carries the ids that provisioning has stored since.
\<close>
theorem record_ids_at_enqueue_counterexample:
  "queued_tasks (run demo_enqueue demo_s0) =
     [Provision demo_options, Publish ''XPJ-5'' (TcGen (Some (Finite 1200)) None)]
   \<and> this_testplanid (run demo_enqueue demo_s0) = JUndefined
   \<and> this_buildid (run demo_enqueue demo_s0) = JUndefined
   \<and> last (calls (run (demo_enqueue @ demo_replies) demo_s0)) = (4, ReportTCResult demo_record)
   \<and> testplanid demo_record \<noteq> this_testplanid (run demo_enqueue demo_s0)
   \<and> buildid demo_record \<noteq> this_buildid (run demo_enqueue demo_s0)"
  unfolding demo_enqueued demo_final
  by (simp add: demo_s0_def demo_record_def queued_tasks_def)

end
